theory Spec2Isabelle
  imports Main "HOL-Library.Word" "HOL-Library.Multiset"
begin

unbundle bit_operations_syntax

section \<open>Data model\<close>

type_synonym byte = "8 word"
type_synonym uint16 = "16 word"
type_synonym uint32 = "32 word"

text \<open>
  A Go \<open>[]byte\<close> that the code slices with an explicit upper bound. Go checks an index
  expression \<open>s[i]\<close> against \<open>len(s)\<close>, but a slice expression \<open>s[lo:hi]\<close> against
  \<open>cap(s)\<close>: \<open>elems\<close> are the \<open>len(s)\<close> bytes of the slice and \<open>spare\<close> the
  \<open>cap(s) - len(s)\<close> bytes of its backing array behind them.
\<close>

record bslice =
  elems :: "byte list"
  spare :: "byte list"

text \<open>
  Every \<open>errors.New\<close> of the source, and the errors of the library calls it hands on.
  A run-time panic of Go (index or slice bounds out of range, an explicit \<open>panic\<close>) is no
  error value: it is the third outcome \<open>Panic\<close>.
\<close>

datatype err =
    ErrMinChunkSize
  | ErrMaxChunkSize
  | ErrCompress
  | ErrIncorrectMessage
  | ErrVersionLess
  | ErrVersionGreater
  | ErrIncorrectInstance
  | ErrEncrypt
  | ErrDecrypt

datatype 'a result = Ok 'a | Error err | Panic

definition chunkHeaderOffset :: nat where
  "chunkHeaderOffset = 6"

definition minChunkSize :: nat where
  "minChunkSize = chunkHeaderOffset"

definition defaultChunkSize :: int where
  "defaultChunkSize = 192"

text \<open>
  \<open>type Chunks struct { mu; count uint16; size uint16; data [][]byte }\<close>.
  A slot of \<open>data\<close> is \<open>None\<close> while it is the nil slice, which is what
  \<open>ReadB64Chunk\<close> tests.
\<close>

record chunks =
  ch_count :: uint16
  ch_size :: uint16
  ch_data :: "byte list option list"

definition NewChunks :: chunks where
  "NewChunks = \<lparr>ch_count = 0, ch_size = 0, ch_data = []\<rparr>"

definition slot_bytes :: "byte list option \<Rightarrow> byte list" where
  "slot_bytes s = (case s of None \<Rightarrow> [] | Some p \<Rightarrow> p)"

section \<open>Splitting: \<open>SetData\<close>\<close>

text \<open>
  The loop of \<open>SetData\<close>:
  \<open>for iter := 0; iter < len(compressedData); iter += chunkSize\<close>. With
  \<open>chunkSize = 0\<close> and data left, \<open>iter\<close> never advances and the loop does not end:
  the value \<open>None\<close>.
\<close>

partial_function (option) SetData_loop ::
  "byte list \<Rightarrow> nat \<Rightarrow> nat \<Rightarrow> byte list option list \<Rightarrow> byte list option list option"
where
  "SetData_loop compressedData chunkSize iter data =
     (if iter < length compressedData then
        SetData_loop compressedData chunkSize (iter + chunkSize)
          (data @ [Some (if length (drop iter compressedData) \<ge> chunkSize
                         then take chunkSize (drop iter compressedData)
                         else drop iter compressedData)])
      else Some data)"

declare SetData_loop.simps [code]

text \<open>
  \<open>SetData(src, chunkSize)\<close> ignores its receiver and returns a new \<open>Chunks\<close>; the
  constructor \<open>NewChunks(src, chunkSize)\<close> of \<open>chunks.go\<close> has the same body.
  \<open>compress\<close> (gzip) is a parameter; \<open>None\<close> is its error.
\<close>

definition SetData ::
  "(byte list \<Rightarrow> byte list option) \<Rightarrow> byte list \<Rightarrow> int \<Rightarrow> chunks result option"
where
  "SetData compress src chunkSize =
     (if chunkSize < int minChunkSize then Some (Error ErrMinChunkSize)
      else if chunkSize > 2 ^ 16 - int chunkHeaderOffset then Some (Error ErrMaxChunkSize)
      else
        (case compress src of
           None \<Rightarrow> Some (Error ErrCompress)
         | Some compressedData \<Rightarrow>
             (case SetData_loop compressedData (nat (chunkSize - int chunkHeaderOffset)) 0 [] of
                None \<Rightarrow> None
              | Some data \<Rightarrow>
                  Some (Ok \<lparr>ch_count = of_nat (length data),
                            ch_size = of_int (chunkSize - int chunkHeaderOffset),
                            ch_data = data\<rparr>))))"

section \<open>Frames: \<open>getChunkWithHeader\<close>, \<open>SerializeB64\<close>\<close>

text \<open>
  \<open>make([]byte, ch.size+chunkHeaderOffset)\<close> adds in \<open>uint16\<close>; \<open>byte(size)\<close> and
  \<open>byte(size >> 8)\<close> truncate the \<open>int\<close> length; \<open>copy\<close> moves as many bytes as both
  sides hold.
\<close>

definition getChunkWithHeader :: "chunks \<Rightarrow> uint16 \<Rightarrow> byte list result" where
  "getChunkWithHeader ch index =
     (if unat index < length (ch_data ch) then
        (let payload = slot_bytes (ch_data ch ! unat index);
             size = length payload;
             n = unat (ch_size ch + 6)
         in if n < 6 then Panic
            else Ok ([ucast index, ucast (drop_bit 8 index),
                      ucast (ch_count ch), ucast (drop_bit 8 (ch_count ch)),
                      of_nat size, of_nat (drop_bit 8 size)]
                     @ take (n - 6) payload @ replicate (n - 6 - length payload) 0))
      else Panic)"

function SerializeB64_loop ::
  "(byte list \<Rightarrow> string) \<Rightarrow> chunks \<Rightarrow> nat \<Rightarrow> string list \<Rightarrow> string list result"
where
  "SerializeB64_loop encode ch i chunksB64 =
     (if i < unat (ch_count ch) then
        (case getChunkWithHeader ch (of_nat i) of
           Ok chunk \<Rightarrow> SerializeB64_loop encode ch (i + 1) (chunksB64 @ [encode chunk])
         | Error e \<Rightarrow> Error e
         | Panic \<Rightarrow> Panic)
      else Ok chunksB64)"
  by pat_completeness auto
termination
  by (relation "measure (\<lambda>(encode, ch, i, chunksB64). unat (ch_count ch) - i)") auto

declare SerializeB64_loop.simps [simp del]

definition SerializeB64 :: "(byte list \<Rightarrow> string) \<Rightarrow> chunks \<Rightarrow> string list result" where
  "SerializeB64 encode ch = SerializeB64_loop encode ch 0 []"

section \<open>Reassembly: \<open>ReadB64Chunk\<close>, \<open>IsReady\<close>, \<open>Data\<close>\<close>

definition u16le :: "byte \<Rightarrow> byte \<Rightarrow> uint16" where
  "u16le lo hi = ucast lo OR push_bit 8 (ucast hi)"

text \<open>
  \<open>ReadB64Chunk\<close> returns its outcome and the buffer it leaves behind (also when it
  panics: the deferred unlock runs and the writes made so far stay). \<open>decode\<close>
  (\<open>base64.StdEncoding.DecodeString\<close>) is a parameter; \<open>None\<close> is its error.
  The upper bound \<open>chunkHeaderOffset+size\<close> of the slice expression is a \<open>uint16\<close> sum.
\<close>

definition ReadB64Chunk ::
  "(string \<Rightarrow> bslice option) \<Rightarrow> chunks \<Rightarrow> string \<Rightarrow> bool result \<times> chunks"
where
  "ReadB64Chunk decode ch frame =
     (case decode frame of
        None \<Rightarrow> (Error ErrIncorrectMessage, ch)
      | Some chunk \<Rightarrow>
          (let c = elems chunk in
           if ch_count ch = 0 \<and> length c < 4 then (Panic, ch)
           else
             (let ch1 = (if ch_count ch = 0
                         then ch\<lparr>ch_count := u16le (c ! 2) (c ! 3),
                                 ch_data := replicate (unat (u16le (c ! 2) (c ! 3))) None\<rparr>
                         else ch)
              in if length c < 6 then (Panic, ch1)
                 else
                   (let index = u16le (c ! 0) (c ! 1);
                        size = u16le (c ! 4) (c ! 5)
                    in if length (ch_data ch1) \<le> unat index then (Panic, ch1)
                       else if ch_data ch1 ! unat index = None then
                         (let high = unat (6 + size)
                          in if high < 6 \<or> length c + length (spare chunk) < high
                             then (Panic, ch1\<lparr>ch_data := (ch_data ch1)
                                     [unat index := Some (replicate (unat size) 0)]\<rparr>)
                             else (Ok True, ch1\<lparr>ch_data := (ch_data ch1)
                                     [unat index := Some (take (high - 6) (drop 6 (c @ spare chunk)))]\<rparr>))
                       else (Ok False, ch1)))))"

definition IsReady :: "chunks \<Rightarrow> bool" where
  "IsReady ch = (length (ch_data ch) = unat (ch_count ch))"

function Data_loop :: "chunks \<Rightarrow> nat \<Rightarrow> byte list \<Rightarrow> byte list result" where
  "Data_loop ch index result =
     (if index < unat (ch_count ch) then
        (if index < length (ch_data ch)
         then Data_loop ch (index + 1) (result @ slot_bytes (ch_data ch ! index))
         else Panic)
      else Ok result)"
  by pat_completeness auto
termination
  by (relation "measure (\<lambda>(ch, index, result). unat (ch_count ch) - index)") auto

declare Data_loop.simps [simp del]

text \<open>
  \<open>result, _ = uncompress(result)\<close>: the error of \<open>uncompress\<close> is dropped and the nil
  slice it comes with is returned.
\<close>

definition Data :: "(byte list \<Rightarrow> byte list option) \<Rightarrow> chunks \<Rightarrow> byte list result" where
  "Data uncompress ch =
     (case Data_loop ch 0 [] of
        Ok result \<Rightarrow> Ok (case uncompress result of None \<Rightarrow> [] | Some r \<Rightarrow> r)
      | Error e \<Rightarrow> Error e
      | Panic \<Rightarrow> Panic)"

section \<open>The envelope: \<open>AirGap\<close> and \<open>Message\<close>\<close>

definition compressedPubKeySize :: nat where
  "compressedPubKeySize = 33"

definition airGapMessagesOffset :: nat where
  "airGapMessagesOffset = 1 + compressedPubKeySize"

definition operationPayloadOffset :: nat where
  "operationPayloadOffset = 6"

text \<open>
  The interface \<open>EncryptorDecryptor\<close>; \<open>None\<close> is the error of a method. What
  \<open>Decrypt\<close> returns is a slice that \<open>Unmarshal\<close> goes on to cut.
\<close>

record EncryptorDecryptor =
  Encrypt :: "byte list \<Rightarrow> byte list option"
  Decrypt :: "byte list \<Rightarrow> bslice option"

text \<open>\<open>instanceId\<close> is \<open>None\<close> while it is nil, \<open>ed\<close> while no capability is bound.\<close>

record AirGap =
  a_version :: byte
  a_instanceId :: "byte list option"
  a_chunkSize :: int
  a_ed :: "EncryptorDecryptor option"

record OpPayload =
  op_OpCode :: uint16
  op_Size :: uint32
  op_Data :: "byte list"

record Message =
  m_Version :: byte
  m_InstanceId :: "byte list option"
  m_Payload :: "OpPayload list"
  m_chunkSize :: int
  m_e :: "(byte list \<Rightarrow> byte list option) option"

definition NewAirGap :: "byte \<Rightarrow> byte list option \<Rightarrow> AirGap result" where
  "NewAirGap version instanceId =
     (case instanceId of
        None \<Rightarrow> Panic
      | Some i \<Rightarrow>
          if length i \<noteq> compressedPubKeySize then Panic
          else Ok \<lparr>a_version = version, a_instanceId = Some i,
                   a_chunkSize = defaultChunkSize, a_ed = None\<rparr>)"

definition SetEncryptorDecryptor :: "AirGap \<Rightarrow> EncryptorDecryptor option \<Rightarrow> AirGap" where
  "SetEncryptorDecryptor a ed = a\<lparr>a_ed := ed\<rparr>"

definition CreateMessage :: "AirGap \<Rightarrow> Message result" where
  "CreateMessage a =
     (case a_instanceId a of
        None \<Rightarrow> Panic
      | Some i \<Rightarrow>
          Ok \<lparr>m_Version = a_version a, m_InstanceId = Some i, m_Payload = [],
              m_chunkSize = a_chunkSize a, m_e = map_option Encrypt (a_ed a)\<rparr>)"

definition AddOperation :: "Message \<Rightarrow> uint16 \<Rightarrow> byte list \<Rightarrow> Message" where
  "AddOperation m opCode data =
     m\<lparr>m_Payload := m_Payload m @
          [\<lparr>op_OpCode = opCode, op_Size = of_nat (length data), op_Data = data\<rparr>]\<rparr>"

text \<open>
  The six header bytes that \<open>Marshal\<close> writes for one operation: the code and the size,
  big-endian.
\<close>

definition op_header :: "uint16 \<Rightarrow> uint32 \<Rightarrow> byte list" where
  "op_header opCode opSize =
     [ucast (drop_bit 8 opCode), ucast opCode,
      ucast (drop_bit 24 opSize), ucast (drop_bit 16 opSize), ucast (drop_bit 8 opSize),
      ucast opSize]"

text \<open>
  The loop of \<open>Marshal\<close>. \<open>make([]byte, operationPayloadOffset+m.Payload[i].Size)\<close> adds
  in \<open>uint32\<close>; a sum that wraps below 6 leaves no room for the header and the first
  write past the end panics. \<open>copy\<close> moves as many bytes as both sides hold.
\<close>

fun Marshal_loop :: "OpPayload list \<Rightarrow> byte list \<Rightarrow> byte list result" where
  "Marshal_loop [] result = Ok result"
| "Marshal_loop (p # ps) result =
     (let n = unat (6 + op_Size p)
      in if n < 6 then Panic
         else Marshal_loop ps
                (result @ op_header (op_OpCode p) (op_Size p)
                   @ take (n - 6) (op_Data p) @ replicate (n - 6 - length (op_Data p)) 0))"

definition Marshal :: "Message \<Rightarrow> byte list result" where
  "Marshal m =
     (case Marshal_loop (m_Payload m) (m_Version m # slot_bytes (m_InstanceId m)) of
        Ok result \<Rightarrow>
          (case m_e m of
             None \<Rightarrow> Ok result
           | Some encrypt \<Rightarrow>
               (case encrypt result of None \<Rightarrow> Error ErrEncrypt | Some c \<Rightarrow> Ok c))
      | Error e \<Rightarrow> Error e
      | Panic \<Rightarrow> Panic)"

definition u16be :: "byte \<Rightarrow> byte \<Rightarrow> uint16" where
  "u16be hi lo = ucast lo OR push_bit 8 (ucast hi)"

definition u32be :: "byte \<Rightarrow> byte \<Rightarrow> byte \<Rightarrow> byte \<Rightarrow> uint32" where
  "u32be b3 b2 b1 b0 =
     ucast b0 OR push_bit 8 (ucast b1) OR push_bit 16 (ucast b2) OR push_bit 24 (ucast b3)"

text \<open>
  The loop of \<open>Unmarshal\<close>:
  \<open>for iter := bytesReaded; iter < len(data); iter += bytesReaded\<close>, where the body sets
  \<open>bytesReaded = operationPayloadOffset + int(size)\<close> (\<open>int\<close> has 64 bits). The six
  header bytes are index expressions, checked against \<open>len(data)\<close>; the data is the slice
  expression \<open>data[iter+6:iter+bytesReaded]\<close>, checked against \<open>cap(data)\<close>.
\<close>

function Unmarshal_loop :: "bslice \<Rightarrow> nat \<Rightarrow> Message \<Rightarrow> Message result" where
  "Unmarshal_loop data iter message =
     (if iter < length (elems data) then
        (if length (elems data) \<le> iter + 5 then Panic
         else
           (let opCode = u16be (elems data ! iter) (elems data ! (iter + 1));
                size = u32be (elems data ! (iter + 2)) (elems data ! (iter + 3))
                         (elems data ! (iter + 4)) (elems data ! (iter + 5));
                bytesReaded = operationPayloadOffset + unat size
            in if length (elems data) + length (spare data) < iter + bytesReaded then Panic
               else Unmarshal_loop data (iter + bytesReaded)
                      (AddOperation message opCode
                         (take (unat size) (drop (iter + 6) (elems data @ spare data))))))
      else Ok message)"
  by pat_completeness auto
termination
  by (relation "measure (\<lambda>(data, iter, message). length (elems data) - iter)")
     (auto simp: operationPayloadOffset_def)

declare Unmarshal_loop.simps [simp del]

text \<open>The first block of \<open>Unmarshal\<close>: the data it goes on with, \<open>None\<close> when \<open>Decrypt\<close> fails.\<close>

definition decrypt_input :: "AirGap \<Rightarrow> bslice \<Rightarrow> bslice option" where
  "decrypt_input a data =
     (case a_ed a of None \<Rightarrow> Some data | Some ed \<Rightarrow> Decrypt ed (elems data))"

text \<open>
  \<open>data[0]\<close> is checked against \<open>len(data)\<close> and \<open>data[1:airGapMessagesOffset]\<close> against
  \<open>cap(data)\<close>, before any comparison.
\<close>

definition Unmarshal :: "AirGap \<Rightarrow> bslice \<Rightarrow> Message result" where
  "Unmarshal a data0 =
     (case decrypt_input a data0 of
        None \<Rightarrow> Error ErrDecrypt
      | Some data \<Rightarrow>
          if elems data = [] then Panic
          else if length (elems data) + length (spare data) < airGapMessagesOffset then Panic
          else
            (let version = elems data ! 0;
                 instanceId = take (airGapMessagesOffset - 1) (drop 1 (elems data @ spare data))
             in if version \<noteq> a_version a \<and> version < a_version a then Error ErrVersionLess
                else if version \<noteq> a_version a \<and> version > a_version a then Error ErrVersionGreater
                else if slot_bytes (a_instanceId a) \<noteq> instanceId then Error ErrIncorrectInstance
                else
                  (case CreateMessage a of
                     Ok message \<Rightarrow> Unmarshal_loop data airGapMessagesOffset message
                   | Error e \<Rightarrow> Error e
                   | Panic \<Rightarrow> Panic)))"

section \<open>The caller's loop over frames\<close>

text \<open>
  The receiving loop of the tests: every frame goes to \<open>ReadB64Chunk\<close> of the same
  buffer, and the first error or panic ends it.
\<close>

fun ReadB64Chunks :: "(string \<Rightarrow> bslice option) \<Rightarrow> chunks \<Rightarrow> string list \<Rightarrow> chunks result" where
  "ReadB64Chunks decode ch [] = Ok ch"
| "ReadB64Chunks decode ch (frame # frames) =
     (case ReadB64Chunk decode ch frame of
        (Ok wasAdded, ch') \<Rightarrow> ReadB64Chunks decode ch' frames
      | (Error e, ch') \<Rightarrow> Error e
      | (Panic, ch') \<Rightarrow> Panic)"

text \<open>The builder chain \<open>CreateMessage().AddOperation(..).AddOperation(..)\<close> of the tests.\<close>

definition AddOperations :: "Message \<Rightarrow> (uint16 \<times> byte list) list \<Rightarrow> Message" where
  "AddOperations m ops = foldl (\<lambda>m (opCode, data). AddOperation m opCode data) m ops"

section \<open>Library instances for concrete inputs\<close>

text \<open>
  The theorems below hold for every \<open>compress\<close>, \<open>uncompress\<close>, \<open>encode\<close>, \<open>decode\<close>
  and capability with the stated properties. To evaluate the definitions at a concrete
  input the parameters are instantiated: base64 by the standard alphabet with padding, as
  \<open>base64.StdEncoding\<close> (its decoder skips CR and LF, and allocates
  \<open>len(s) / 4 * 3\<close> bytes for its result); compression and encryption by stand-ins.
  \<open>stored_compress\<close> is not gzip: it stores the data behind the two magic bytes of
  gzip, and \<open>stored_uncompress\<close> takes them off again. The bytes and the number of the
  chunks that \<open>SetData\<close> cuts with it are not those that the code cuts with gzip; it only
  instantiates the parameter \<open>compress\<close> of a theorem that holds for every compressor.
  \<open>flip_ed\<close> is a capability that flips every bit.
\<close>

definition b64_char :: "nat \<Rightarrow> char" where
  "b64_char v =
     (if v < 26 then char_of (65 + v)
      else if v < 52 then char_of (71 + v)
      else if v < 62 then char_of (v - 4)
      else if v = 62 then CHR ''+'' else CHR ''/'')"

definition b64_index :: "char \<Rightarrow> nat option" where
  "b64_index c =
     (let n = of_char c :: nat
      in if 65 \<le> n \<and> n \<le> 90 then Some (n - 65)
         else if 97 \<le> n \<and> n \<le> 122 then Some (n - 71)
         else if 48 \<le> n \<and> n \<le> 57 then Some (n + 4)
         else if n = 43 then Some 62
         else if n = 47 then Some 63
         else None)"

fun b64_encode :: "byte list \<Rightarrow> string" where
  "b64_encode (x # y # z # rest) =
     [b64_char (unat x div 4), b64_char (unat x mod 4 * 16 + unat y div 16),
      b64_char (unat y mod 16 * 4 + unat z div 64), b64_char (unat z mod 64)]
     @ b64_encode rest"
| "b64_encode [x, y] =
     [b64_char (unat x div 4), b64_char (unat x mod 4 * 16 + unat y div 16),
      b64_char (unat y mod 16 * 4), CHR ''='']"
| "b64_encode [x] =
     [b64_char (unat x div 4), b64_char (unat x mod 4 * 16), CHR ''='', CHR ''='']"
| "b64_encode [] = []"

text \<open>The three bytes of four sextets.\<close>

definition b64_bytes :: "nat \<Rightarrow> nat \<Rightarrow> nat \<Rightarrow> nat \<Rightarrow> byte list" where
  "b64_bytes w x y z =
     [of_nat (w * 4 + x div 16), of_nat (x mod 16 * 16 + y div 4), of_nat (y mod 4 * 64 + z)]"

fun b64_decode :: "string \<Rightarrow> byte list option" where
  "b64_decode (a # b # c # d # rest) =
     (case (b64_index a, b64_index b) of
        (Some w, Some x) \<Rightarrow>
          if c = CHR ''='' then
            (if d = CHR ''='' \<and> rest = [] then Some (take 1 (b64_bytes w x 0 0)) else None)
          else
            (case b64_index c of
               None \<Rightarrow> None
             | Some y \<Rightarrow>
                 if d = CHR ''='' then
                   (if rest = [] then Some (take 2 (b64_bytes w x y 0)) else None)
                 else
                   (case b64_index d of
                      None \<Rightarrow> None
                    | Some z \<Rightarrow> map_option (\<lambda>r. b64_bytes w x y z @ r) (b64_decode rest)))
      | _ \<Rightarrow> None)"
| "b64_decode [] = Some []"
| "b64_decode _ = None"

definition DecodeString :: "string \<Rightarrow> bslice option" where
  "DecodeString s =
     (case b64_decode (filter (\<lambda>c. c \<noteq> CHR 0x0A \<and> c \<noteq> CHR 0x0D) s) of
        None \<Rightarrow> None
      | Some bs \<Rightarrow> Some \<lparr>elems = bs, spare = replicate (length s div 4 * 3 - length bs) 0\<rparr>)"

definition stored_compress :: "byte list \<Rightarrow> byte list option" where
  "stored_compress src = Some ([0x1f, 0x8b] @ src)"

definition stored_uncompress :: "byte list \<Rightarrow> byte list option" where
  "stored_uncompress src =
     (if take 2 src = [0x1f, 0x8b] then Some (drop 2 src) else None)"

definition flip_ed :: EncryptorDecryptor where
  "flip_ed = \<lparr>Encrypt = (\<lambda>data. Some (map (\<lambda>b. NOT b) data)),
              Decrypt = (\<lambda>data. Some \<lparr>elems = map (\<lambda>b. NOT b) data, spare = []\<rparr>)\<rparr>"

text \<open>
  A receiving buffer that holds chunk 0 of a message of three chunks, and a protocol
  context of version 1.
\<close>

definition buffer_1of3 :: chunks where
  "buffer_1of3 = \<lparr>ch_count = 3, ch_size = 0, ch_data = [Some [0x1f, 0x8b], None, None]\<rparr>"

definition airgap_1 :: AirGap where
  "airgap_1 = \<lparr>a_version = 1, a_instanceId = Some (replicate 33 2),
               a_chunkSize = defaultChunkSize, a_ed = None\<rparr>"

text \<open>
  The message that \<open>CreateMessage\<close> builds in that context, the three operations of the
  envelope test, and the envelope that \<open>Marshal\<close> writes for them.
\<close>

definition message_1 :: Message where
  "message_1 = \<lparr>m_Version = 1, m_InstanceId = Some (replicate 33 2), m_Payload = [],
                 m_chunkSize = defaultChunkSize, m_e = None\<rparr>"

definition ops_abc :: "(uint16 \<times> byte list) list" where
  "ops_abc = [(1, [0x61]), (1000, [0x62, 0x62]), (65535, [0x63, 0x63, 0x63])]"

definition wire_abc :: "byte list" where
  "wire_abc = 1 # replicate 33 2 @
     [0, 1, 0, 0, 0, 1, 0x61,
      3, 0xE8, 0, 0, 0, 2, 0x62, 0x62,
      0xFF, 0xFF, 0, 0, 0, 3, 0x63, 0x63, 0x63]"

text \<open>
  What \<open>SetData\<close> returns for the bytes 1, 2, 3 at chunk size 8 when the storing
  stand-in is given for \<open>compress\<close> (with gzip the chunks hold other bytes and are more),
  and the buffer that has received its three frames.
\<close>

definition chunks_123 :: chunks where
  "chunks_123 = \<lparr>ch_count = 3, ch_size = 2, ch_data = [Some [0x1f, 0x8b], Some [1, 2], Some [3]]\<rparr>"

definition buffer_3of3 :: chunks where
  "buffer_3of3 = \<lparr>ch_count = 3, ch_size = 0, ch_data = [Some [0x1f, 0x8b], Some [1, 2], Some [3]]\<rparr>"

section \<open>Auxiliary notions of the proofs\<close>

text \<open>The windows that the loop of \<open>SetData\<close> cuts from position \<open>iter\<close> on.\<close>

definition chunks_of :: "byte list \<Rightarrow> nat \<Rightarrow> nat \<Rightarrow> byte list option list" where
  "chunks_of cd cs iter =
     map (\<lambda>j. Some (take cs (drop (iter + j * cs) cd))) [0..<(length cd - iter + cs - 1) div cs]"

text \<open>
  The bytes that the loop of \<open>Marshal\<close> appends for an operation whose size does not wrap:
  the header, and the data cut or filled with zeros to \<open>Size\<close> bytes. \<open>op_parsed\<close> is the
  operation that \<open>Unmarshal\<close> reads back from them, and \<open>op_of\<close> the operation that
  \<open>AddOperation\<close> appends.
\<close>

definition op_body :: "OpPayload \<Rightarrow> byte list" where
  "op_body p =
     take (unat (op_Size p)) (op_Data p) @ replicate (unat (op_Size p) - length (op_Data p)) 0"

definition op_record :: "OpPayload \<Rightarrow> byte list" where
  "op_record p = op_header (op_OpCode p) (op_Size p) @ op_body p"

definition op_parsed :: "OpPayload \<Rightarrow> OpPayload" where
  "op_parsed p = \<lparr>op_OpCode = op_OpCode p, op_Size = op_Size p, op_Data = op_body p\<rparr>"

definition op_of :: "uint16 \<times> byte list \<Rightarrow> OpPayload" where
  "op_of x = \<lparr>op_OpCode = fst x, op_Size = of_nat (length (snd x)), op_Data = snd x\<rparr>"

text \<open>
  A \<open>Chunks\<close> value as \<open>SetData\<close> returns it: payloads \<open>ps\<close> of at most \<open>cs\<close> bytes,
  fewer than \<open>2^16\<close> of them, and frames of \<open>cs + 6\<close> bytes. \<open>frame_of\<close> is the frame
  that \<open>getChunkWithHeader\<close> builds for chunk \<open>j\<close>, and \<open>filled ps S\<close> the receiving
  buffer in which exactly the slots \<open>S\<close> have been delivered.
\<close>

definition sender :: "chunks \<Rightarrow> byte list list \<Rightarrow> nat \<Rightarrow> bool" where
  "sender ch ps cs \<longleftrightarrow>
     ch_data ch = map Some ps \<and> ch_count ch = of_nat (length ps) \<and> length ps < 65536 \<and>
     ch_size ch = of_nat cs \<and> cs + 6 < 65536 \<and> list_all (\<lambda>p. length p \<le> cs) ps"

definition frame_of :: "chunks \<Rightarrow> nat \<Rightarrow> byte list" where
  "frame_of ch j = (case getChunkWithHeader ch (of_nat j) of Ok c \<Rightarrow> c | _ \<Rightarrow> [])"

definition filled :: "byte list list \<Rightarrow> nat set \<Rightarrow> chunks" where
  "filled ps S =
     \<lparr>ch_count = of_nat (length ps), ch_size = 0,
      ch_data = map (\<lambda>k. if k \<in> S then Some (ps ! k) else None) [0..<length ps]\<rparr>"

section \<open>Chunk sizes that \<open>SetData\<close> takes\<close>

lemma ceil_step:
  fixes m cs :: nat
  assumes "0 < cs" "0 < m"
  shows "(m + cs - 1) div cs = Suc ((m - cs + cs - 1) div cs)"
proof (cases "cs \<le> m")
  case True
  then have "m + cs - 1 = (m - cs + cs - 1) + cs" using assms by arith
  then have "(m + cs - 1) div cs = ((m - cs + cs - 1) + cs) div cs" by simp
  also have "\<dots> = Suc ((m - cs + cs - 1) div cs)" using assms by (simp only: div_add_self2)
  finally show ?thesis .
next
  case False
  then have a: "m + cs - 1 < 2 * cs" "cs \<le> m + cs - 1" using assms by arith+
  have "(m + cs - 1) div cs = 1"
    using a by (intro div_nat_eqI) simp_all
  moreover have "(m - cs + cs - 1) div cs = 0" using False assms by simp
  ultimately show ?thesis by simp
qed

lemma SetData_loop_eq:
  "0 < cs \<Longrightarrow> SetData_loop cd cs iter data = Some (data @ chunks_of cd cs iter)"
proof (induction "length cd - iter" arbitrary: iter data rule: less_induct)
  case less
  show ?case
  proof (cases "iter < length cd")
    case False
    then have "(length cd - iter + cs - 1) div cs = 0" using less.prems by simp
    with False show ?thesis
      by (subst SetData_loop.simps) (simp add: chunks_of_def)
  next
    case True
    have lt: "length cd - (iter + cs) < length cd - iter" using True less.prems by arith
    have "(length cd - iter + cs - 1) div cs = Suc ((length cd - iter - cs + cs - 1) div cs)"
      using ceil_step[of cs "length cd - iter"] True less.prems by simp
    then have n: "(length cd - iter + cs - 1) div cs = Suc ((length cd - (iter + cs) + cs - 1) div cs)"
      by (simp only: diff_diff_left)
    have tk: "(if cs \<le> length (drop iter cd) then take cs (drop iter cd) else drop iter cd) = take cs (drop iter cd)"
      by simp
    have "SetData_loop cd cs iter data = SetData_loop cd cs (iter + cs) (data @ [Some (take cs (drop iter cd))])"
      using True by (subst SetData_loop.simps) (simp only: tk if_True)
    also have "\<dots> = Some ((data @ [Some (take cs (drop iter cd))]) @ chunks_of cd cs (iter + cs))"
      using less.hyps[OF lt less.prems] .
    also have "(data @ [Some (take cs (drop iter cd))]) @ chunks_of cd cs (iter + cs) = data @ chunks_of cd cs iter"
    proof -
      let ?k = "(length cd - (iter + cs) + cs - 1) div cs"
      have "[0..<Suc ?k] = 0 # map Suc [0..<?k]"
        by (simp only: map_Suc_upt upt_conv_Cons[of 0 "Suc ?k"] zero_less_Suc if_True)
      then show ?thesis
        unfolding chunks_of_def n by (simp add: comp_def ac_simps)
    qed
    finally show ?thesis .
  qed
qed


lemma SetData_loop_diverges:
  assumes "iter < length cd"
  shows "SetData_loop cd 0 iter data = None"
proof -
  have "\<not> (cs = 0 \<and> it < length cd)" if "SetData_loop cd cs it d = Some r" for cs it d r
    by (rule SetData_loop.raw_induct
          [where P = "\<lambda>cd cs it d r. \<not> (cs = 0 \<and> it < length cd)", OF _ that])
       (fastforce split: if_splits)
  then show ?thesis using assms by (cases "SetData_loop cd 0 iter data") auto
qed

text \<open>
  C3 (amended). \<open>SetData\<close> returns the error "min chunk size" for every chunk size below 6
  (so for 5) and the error "max chunk size" for every chunk size above
  \<open>1<<16 - chunkHeaderOffset = 65530\<close> (so for 65536, and for 65535 as well); for every
  chunk size from 7 to 65530 and every input that \<open>compress\<close> takes, it returns a
  \<open>Chunks\<close> value.
\<close>

theorem SetData_chunk_size_bounds:
  "(chunkSize < 6 \<longrightarrow> SetData compress src chunkSize = Some (Error ErrMinChunkSize)) \<and>
   (65530 < chunkSize \<longrightarrow> SetData compress src chunkSize = Some (Error ErrMaxChunkSize)) \<and>
   (7 \<le> chunkSize \<and> chunkSize \<le> 65530 \<and> compress src \<noteq> None \<longrightarrow>
      (\<exists>ch. SetData compress src chunkSize = Some (Ok ch)))"
proof (intro conjI impI)
  assume "chunkSize < 6"
  then show "SetData compress src chunkSize = Some (Error ErrMinChunkSize)"
    by (simp add: SetData_def minChunkSize_def chunkHeaderOffset_def)
next
  assume "65530 < chunkSize"
  then show "SetData compress src chunkSize = Some (Error ErrMaxChunkSize)"
    by (simp add: SetData_def minChunkSize_def chunkHeaderOffset_def)
next
  assume a: "7 \<le> chunkSize \<and> chunkSize \<le> 65530 \<and> compress src \<noteq> None"
  then obtain cd where cd: "compress src = Some cd" by auto
  have "0 < nat (chunkSize - 6)" using a by simp
  from SetData_loop_eq[OF this] a cd
  show "\<exists>ch. SetData compress src chunkSize = Some (Ok ch)"
    by (simp add: SetData_def minChunkSize_def chunkHeaderOffset_def)
qed

theorem SetData_chunk_size_bounds_witness:
  "SetData stored_compress [1, 2, 3] 5 = Some (Error ErrMinChunkSize) \<and>
   SetData stored_compress [1, 2, 3] 65536 = Some (Error ErrMaxChunkSize) \<and>
   (\<exists>ch. SetData stored_compress [1, 2, 3] 8 = Some (Ok ch))"
  using SetData_chunk_size_bounds [of 5 stored_compress "[1, 2, 3]"]
    SetData_chunk_size_bounds [of 65536 stored_compress "[1, 2, 3]"]
    SetData_chunk_size_bounds [of 8 stored_compress "[1, 2, 3]"]
  by (simp add: stored_compress_def)

text \<open>
  C3 as stated fails at chunk size 65535: the guard \<open>chunkSize > 1<<16-chunkHeaderOffset\<close>
  refuses it.
\<close>

theorem SetData_65535_counterexample:
  "SetData stored_compress [1, 2, 3] 65535 = Some (Error ErrMaxChunkSize)"
  by (simp add: SetData_def minChunkSize_def chunkHeaderOffset_def)

text \<open>
  At chunk size 6 the payload capacity is 0: with compressed data to split, the loop of
  \<open>SetData\<close> appends empty chunks for ever and \<open>SetData\<close> does not return (the Go
  process runs until its memory is exhausted).
\<close>

theorem SetData_6_diverges:
  "compress src = Some (x # xs) \<Longrightarrow> SetData compress src 6 = None"
  by (simp add: SetData_def minChunkSize_def chunkHeaderOffset_def SetData_loop_diverges)

theorem SetData_6_diverges_witness: "SetData stored_compress [1, 2, 3] 6 = None"
  using SetData_6_diverges [of stored_compress "[1, 2, 3]" "0x1f" "[0x8b, 1, 2, 3]"]
  by (simp add: stored_compress_def)

section \<open>One frame into the buffer: \<open>ReadB64Chunk\<close>\<close>

lemma replicate_3: "replicate 3 x = [x, x, x]"
  by (simp add: numeral_3_eq_3)

lemmas b64_eval = DecodeString_def b64_index_def b64_bytes_def u16le_def replicate_3

text \<open>
  C2 (the code departs from the claim). \<open>IsReady\<close> compares the length of the slot table
  with \<open>count\<close>, and \<open>ReadB64Chunk\<close> allocates the table to \<open>count\<close> slots when it
  sees the first chunk. So \<open>IsReady\<close> is true after the first chunk that an empty buffer
  takes, and stays true after every further chunk, whatever number of slots is still
  empty.
\<close>

theorem IsReady_after_ReadB64Chunk:
  assumes "ch_count ch = 0 \<or> IsReady ch"
    and "ReadB64Chunk decode ch frame = (Ok wasAdded, ch')"
  shows "IsReady ch'"
  using assms
  by (auto simp add: ReadB64Chunk_def Let_def IsReady_def split: option.splits if_splits)

text \<open>
  With one chunk of three delivered \<open>IsReady\<close> is true, and with two of three as well,
  the third slot being empty.
\<close>

theorem IsReady_two_of_three:
  "ReadB64Chunk DecodeString NewChunks ''AAADAAIAH4s='' = (Ok True, buffer_1of3) \<and>
   IsReady buffer_1of3 \<and>
   ReadB64Chunk DecodeString buffer_1of3 ''AQADAAIAAQI=''
     = (Ok True, \<lparr>ch_count = 3, ch_size = 0, ch_data = [Some [0x1f, 0x8b], Some [1, 2], None]\<rparr>) \<and>
   IsReady \<lparr>ch_count = 3, ch_size = 0, ch_data = [Some [0x1f, 0x8b], Some [1, 2], None]\<rparr>"
proof -
  have first: "ReadB64Chunk DecodeString NewChunks ''AAADAAIAH4s='' = (Ok True, buffer_1of3)"
    by (simp add: ReadB64Chunk_def b64_eval NewChunks_def buffer_1of3_def)
  have second: "ReadB64Chunk DecodeString buffer_1of3 ''AQADAAIAAQI=''
     = (Ok True, \<lparr>ch_count = 3, ch_size = 0, ch_data = [Some [0x1f, 0x8b], Some [1, 2], None]\<rparr>)"
    by (simp add: ReadB64Chunk_def b64_eval buffer_1of3_def)
  have empty: "ch_count NewChunks = 0 \<or> IsReady NewChunks"
    by (simp add: NewChunks_def)
  have one: "IsReady buffer_1of3"
    by (rule IsReady_after_ReadB64Chunk [OF empty first])
  have two: "IsReady \<lparr>ch_count = 3, ch_size = 0, ch_data = [Some [0x1f, 0x8b], Some [1, 2], None]\<rparr>"
    by (rule IsReady_after_ReadB64Chunk [OF disjI2 [OF one] second])
  from first one second two show ?thesis by simp
qed

text \<open>
  C4 (amended). In a buffer whose count is fixed (not 0, with a table of \<open>count\<close> slots),
  a frame of at least 6 bytes whose index field is not below the count makes
  \<open>ReadB64Chunk\<close> panic on the table access \<open>ch.data[index]\<close>: no error value is
  returned, nothing is written, and the buffer is left as it was.
\<close>

theorem ReadB64Chunk_index_out_of_range:
  assumes "decode frame = Some chunk" and "6 \<le> length (elems chunk)"
    and "ch_count ch \<noteq> 0" and "length (ch_data ch) = unat (ch_count ch)"
    and "ch_count ch \<le> u16le (elems chunk ! 0) (elems chunk ! 1)"
  shows "ReadB64Chunk decode ch frame = (Panic, ch)"
  using assms by (simp add: ReadB64Chunk_def Let_def word_le_nat_alt)

theorem ReadB64Chunk_index_out_of_range_witness:
  "ReadB64Chunk DecodeString buffer_1of3 ''AwADAAAA'' = (Panic, buffer_1of3)"
  using ReadB64Chunk_index_out_of_range
    [of DecodeString "''AwADAAAA''" "\<lparr>elems = [3, 0, 3, 0, 0, 0], spare = []\<rparr>" buffer_1of3]
  by (simp add: b64_eval buffer_1of3_def)

text \<open>
  C4 as stated fails: in a buffer of three slots the frame with index 5 ends in a panic,
  not in an out-of-range error.
\<close>

theorem ReadB64Chunk_index_counterexample:
  "ReadB64Chunk DecodeString buffer_1of3 ''BQADAAAA'' = (Panic, buffer_1of3)"
  by (simp add: ReadB64Chunk_def b64_eval buffer_1of3_def)

text \<open>
  C5 (amended). A frame that base64 does not decode makes \<open>ReadB64Chunk\<close> return the error
  "incorrect go-airgap message" and leaves the buffer as it was. A frame that decodes to
  fewer than 6 bytes is not checked for its length: the read of a header byte panics,
  and no error value is returned; the buffer is left as it was when its count was already
  fixed or the frame has fewer than 4 bytes.
\<close>

theorem ReadB64Chunk_malformed:
  "(decode frame = None \<longrightarrow> ReadB64Chunk decode ch frame = (Error ErrIncorrectMessage, ch)) \<and>
   (decode frame = Some chunk \<and> length (elems chunk) < 6 \<longrightarrow>
      fst (ReadB64Chunk decode ch frame) = Panic \<and>
      (ch_count ch \<noteq> 0 \<or> length (elems chunk) < 4 \<longrightarrow> snd (ReadB64Chunk decode ch frame) = ch))"
  by (auto simp add: ReadB64Chunk_def Let_def)

theorem ReadB64Chunk_malformed_witness:
  "ReadB64Chunk DecodeString buffer_1of3 ''AAA!'' = (Error ErrIncorrectMessage, buffer_1of3) \<and>
   ReadB64Chunk DecodeString buffer_1of3 ''AAADAAA='' = (Panic, buffer_1of3)"
  using ReadB64Chunk_malformed [of DecodeString "''AAA!''" buffer_1of3]
    ReadB64Chunk_malformed [where decode = DecodeString and frame = "''AAADAAA=''"
      and chunk = "\<lparr>elems = [0, 0, 3, 0, 0], spare = [0]\<rparr>" and ch = buffer_1of3]
  by (simp add: b64_eval buffer_1of3_def prod_eq_iff)

text \<open>
  C5 as stated fails: a frame of 5 bytes, given to an empty buffer, ends in a panic, and
  the buffer has taken its count and its table from the frame before.
\<close>

theorem ReadB64Chunk_short_frame_counterexample:
  "ReadB64Chunk DecodeString NewChunks ''AAADAAA='' =
     (Panic, \<lparr>ch_count = 3, ch_size = 0, ch_data = [None, None, None]\<rparr>)"
  by (simp add: ReadB64Chunk_def b64_eval NewChunks_def)

text \<open>
  C6. When \<open>ReadB64Chunk\<close> has taken a frame, taking the same frame again returns
  \<open>wasAdded = false\<close> with no error and leaves the buffer as the first call left it.
  More generally, in a buffer whose count is fixed, a frame (of at least 6 bytes) for a
  slot that is already filled is ignored: no error, \<open>wasAdded = false\<close>, and the buffer
  unchanged, whatever payload the frame carries.
\<close>

theorem ReadB64Chunk_duplicate:
  "(ReadB64Chunk decode ch frame = (Ok wasAdded, ch1) \<longrightarrow>
      ReadB64Chunk decode ch1 frame = (Ok False, ch1)) \<and>
   (decode frame = Some chunk \<and> 6 \<le> length (elems chunk) \<and>
    ch_count ch \<noteq> 0 \<and>
    unat (u16le (elems chunk ! 0) (elems chunk ! 1)) < length (ch_data ch) \<and>
    ch_data ch ! unat (u16le (elems chunk ! 0) (elems chunk ! 1)) \<noteq> None \<longrightarrow>
      ReadB64Chunk decode ch frame = (Ok False, ch))"
  by (auto simp add: ReadB64Chunk_def Let_def split: option.splits if_splits)

theorem ReadB64Chunk_duplicate_witness:
  "ReadB64Chunk DecodeString NewChunks ''AAADAAIAH4s='' = (Ok True, buffer_1of3) \<and>
   ReadB64Chunk DecodeString buffer_1of3 ''AAADAAIAH4s='' = (Ok False, buffer_1of3) \<and>
   ReadB64Chunk DecodeString buffer_1of3 ''AAADAAIACQk='' = (Ok False, buffer_1of3)"
proof -
  have first: "ReadB64Chunk DecodeString NewChunks ''AAADAAIAH4s='' = (Ok True, buffer_1of3)"
    by (simp add: ReadB64Chunk_def b64_eval NewChunks_def buffer_1of3_def)
  have other: "DecodeString ''AAADAAIACQk='' = Some \<lparr>elems = [0, 0, 3, 0, 2, 0, 9, 9], spare = [0]\<rparr>"
    by (simp add: b64_eval)
  show ?thesis
    using first
      ReadB64Chunk_duplicate [of DecodeString NewChunks "''AAADAAIAH4s=''" True buffer_1of3]
      ReadB64Chunk_duplicate [where decode = DecodeString and ch = buffer_1of3
         and frame = "''AAADAAIACQk=''"
         and chunk = "\<lparr>elems = [0, 0, 3, 0, 2, 0, 9, 9], spare = [0]\<rparr>"] other
    by (simp add: u16le_def buffer_1of3_def)
qed

text \<open>
  Once the count of a buffer is fixed, no frame changes it, nor the number of slots: the
  count field of every later frame is ignored.
\<close>

theorem ReadB64Chunk_count_fixed:
  assumes "ch_count ch \<noteq> 0"
  shows "ch_count (snd (ReadB64Chunk decode ch frame)) = ch_count ch \<and>
         length (ch_data (snd (ReadB64Chunk decode ch frame))) = length (ch_data ch)"
  using assms
  by (auto simp add: ReadB64Chunk_def Let_def split: option.splits)

theorem ReadB64Chunk_count_fixed_witness:
  "ReadB64Chunk DecodeString buffer_1of3 ''AQAJAAIAAQI=''
     = (Ok True, \<lparr>ch_count = 3, ch_size = 0, ch_data = [Some [0x1f, 0x8b], Some [1, 2], None]\<rparr>)"
  using ReadB64Chunk_count_fixed [of buffer_1of3 DecodeString "''AQAJAAIAAQI=''"]
  by (simp add: ReadB64Chunk_def b64_eval buffer_1of3_def)

text \<open>
  A frame for an empty slot whose size field promises more payload than the decoded frame
  has room for: \<open>ReadB64Chunk\<close> allocates the slot first, then the slice expression
  \<open>chunk[6:6+size]\<close> panics. The slot stays filled, with \<open>size\<close> zero bytes.
\<close>

theorem ReadB64Chunk_oversized_payload:
  assumes "decode frame = Some chunk" and "6 \<le> length (elems chunk)"
    and "ch_count ch \<noteq> 0"
    and "unat (u16le (elems chunk ! 0) (elems chunk ! 1)) < length (ch_data ch)"
    and "ch_data ch ! unat (u16le (elems chunk ! 0) (elems chunk ! 1)) = None"
    and "length (elems chunk) + length (spare chunk)
           < 6 + unat (u16le (elems chunk ! 4) (elems chunk ! 5))"
  shows "ReadB64Chunk decode ch frame =
           (Panic, ch\<lparr>ch_data := (ch_data ch)
              [unat (u16le (elems chunk ! 0) (elems chunk ! 1)) :=
                 Some (replicate (unat (u16le (elems chunk ! 4) (elems chunk ! 5))) 0)]\<rparr>)"
proof -
  let ?size = "u16le (elems chunk ! 4) (elems chunk ! 5)"
  have "unat (6 + ?size) < 6 \<or> length (elems chunk) + length (spare chunk) < unat (6 + ?size)"
  proof (cases "6 + unat ?size < 65536")
    case True
    then have "unat (6 + ?size) = 6 + unat ?size" by (simp add: unat_word_ariths)
    with assms(6) show ?thesis by simp
  next
    case False
    have "unat ?size < 65536" using unsigned_less [of ?size, where 'a = nat] by simp
    then have "unat (6 + ?size) = 6 + unat ?size - 65536"
      using False by (simp add: unat_word_ariths mod_if)
    then show ?thesis using \<open>unat ?size < 65536\<close> by arith
  qed
  then show ?thesis
    using assms(1-5) by (simp add: ReadB64Chunk_def Let_def)
qed

theorem ReadB64Chunk_oversized_payload_witness:
  "ReadB64Chunk DecodeString buffer_1of3 ''AQADAAMA''
     = (Panic, \<lparr>ch_count = 3, ch_size = 0,
                ch_data = [Some [0x1f, 0x8b], Some [0, 0, 0], None]\<rparr>)"
  using ReadB64Chunk_oversized_payload
    [where decode = DecodeString and frame = "''AQADAAMA''" and ch = buffer_1of3
       and chunk = "\<lparr>elems = [1, 0, 3, 0, 3, 0], spare = []\<rparr>"]
  by (simp add: b64_eval buffer_1of3_def)

section \<open>The header checks of \<open>Unmarshal\<close>\<close>

lemma NewAirGap_airgap_1: "NewAirGap 1 (Some (replicate 33 2)) = Ok airgap_1"
  by (simp add: NewAirGap_def airgap_1_def compressedPubKeySize_def)

lemma Unmarshal_loop_no_error: "Unmarshal_loop d iter m \<noteq> Error e"
proof (induction d iter m rule: Unmarshal_loop.induct)
  case (1 data iter message)
  show ?case
    by (subst Unmarshal_loop.simps) (use 1 in \<open>auto simp add: Let_def\<close>)
qed

text \<open>
  \<open>Unmarshal\<close> on an input (after decryption) that is not empty and has capacity for the
  header: the three comparisons in the order of the code, then the loop over the
  operation records.
\<close>

lemma Unmarshal_header:
  assumes "decrypt_input a data = Some d" and "elems d \<noteq> []"
    and "34 \<le> length (elems d) + length (spare d)"
  shows "Unmarshal a data =
      (if elems d ! 0 < a_version a then Error ErrVersionLess
       else if a_version a < elems d ! 0 then Error ErrVersionGreater
       else if take 33 (drop 1 (elems d @ spare d)) \<noteq> slot_bytes (a_instanceId a)
         then Error ErrIncorrectInstance
       else (case CreateMessage a of
               Ok message \<Rightarrow> Unmarshal_loop d 34 message
             | Error e \<Rightarrow> Error e
             | Panic \<Rightarrow> Panic))"
proof -
  have cap: "\<not> length (elems d) + length (spare d) < airGapMessagesOffset"
    using assms(3) by (simp add: airGapMessagesOffset_def compressedPubKeySize_def)
  have off: "airGapMessagesOffset = 34" "airGapMessagesOffset - 1 = 33"
    by (simp_all add: airGapMessagesOffset_def compressedPubKeySize_def)
  show ?thesis
    unfolding Unmarshal_def Let_def off using assms(1,2) cap [unfolded off]
    by (simp del: take_append drop_append)
qed

text \<open>
  C7 (amended). For every envelope (after decryption) that is not empty and has capacity
  for the 34 bytes of the header, so for every envelope of at least 34 bytes, \<open>Unmarshal\<close>
  compares the version first and the instance id second. A version byte below the
  configured version gives the error "version less than supported" and a version byte
  above it the error "version greater than supported", whatever the instance id is. The
  error "incorrect instance" is returned when the versions are equal and the 33 bytes
  behind the version byte differ from the configured instance id. So whenever the
  instance id differs an error is returned, and it is the version error when the version
  differs too. A message is returned only when version and instance id are both equal,
  and when both are equal no error is returned. For an envelope of at least 34 bytes the
  33 bytes compared are its bytes 1 to 33.
\<close>

theorem Unmarshal_version_instance:
  assumes "decrypt_input a data = Some d" and "elems d \<noteq> []"
    and "34 \<le> length (elems d) + length (spare d)"
  shows "(elems d ! 0 < a_version a \<longrightarrow> Unmarshal a data = Error ErrVersionLess) \<and>
         (a_version a < elems d ! 0 \<longrightarrow> Unmarshal a data = Error ErrVersionGreater) \<and>
         (elems d ! 0 = a_version a \<and>
          take 33 (drop 1 (elems d @ spare d)) \<noteq> slot_bytes (a_instanceId a) \<longrightarrow>
            Unmarshal a data = Error ErrIncorrectInstance) \<and>
         (take 33 (drop 1 (elems d @ spare d)) \<noteq> slot_bytes (a_instanceId a) \<longrightarrow>
            (\<exists>e. Unmarshal a data = Error e)) \<and>
         ((\<exists>m. Unmarshal a data = Ok m) \<longrightarrow>
            elems d ! 0 = a_version a \<and>
            take 33 (drop 1 (elems d @ spare d)) = slot_bytes (a_instanceId a)) \<and>
         (elems d ! 0 = a_version a \<and>
          take 33 (drop 1 (elems d @ spare d)) = slot_bytes (a_instanceId a) \<longrightarrow>
            (\<forall>e. Unmarshal a data \<noteq> Error e)) \<and>
         (34 \<le> length (elems d) \<longrightarrow>
            take 33 (drop 1 (elems d @ spare d)) = take 33 (drop 1 (elems d)))"
proof -
  note U = Unmarshal_header [OF assms]
  have accepted: "\<forall>e. (case CreateMessage a of
               Ok message \<Rightarrow> Unmarshal_loop d 34 message
             | Error e \<Rightarrow> Error e
             | Panic \<Rightarrow> Panic) \<noteq> Error e"
    by (auto simp add: CreateMessage_def Unmarshal_loop_no_error split: option.splits)
  show ?thesis
    unfolding U using accepted by (auto simp add: not_less)
qed

theorem Unmarshal_version_instance_witness:
  "Unmarshal airgap_1 \<lparr>elems = 0 # replicate 33 2, spare = []\<rparr> = Error ErrVersionLess \<and>
   Unmarshal airgap_1 \<lparr>elems = 2 # replicate 33 2, spare = []\<rparr> = Error ErrVersionGreater \<and>
   Unmarshal airgap_1 \<lparr>elems = 1 # replicate 33 3, spare = []\<rparr> = Error ErrIncorrectInstance \<and>
   Unmarshal airgap_1 \<lparr>elems = 1 # replicate 33 2, spare = []\<rparr>
     = Ok \<lparr>m_Version = 1, m_InstanceId = Some (replicate 33 2), m_Payload = [],
           m_chunkSize = 192, m_e = None\<rparr>"
proof -
  have d: "decrypt_input airgap_1 x = Some x" for x
    by (simp add: decrypt_input_def airgap_1_def)
  have ok: "Unmarshal airgap_1 \<lparr>elems = 1 # replicate 33 2, spare = []\<rparr>
     = Ok \<lparr>m_Version = 1, m_InstanceId = Some (replicate 33 2), m_Payload = [],
           m_chunkSize = 192, m_e = None\<rparr>"
    by (simp add: Unmarshal_def decrypt_input_def airgap_1_def airGapMessagesOffset_def
        compressedPubKeySize_def slot_bytes_def CreateMessage_def defaultChunkSize_def
        Unmarshal_loop.simps)
  show ?thesis
    using Unmarshal_version_instance [OF d, of "\<lparr>elems = 0 # replicate 33 2, spare = []\<rparr>"]
      Unmarshal_version_instance [OF d, of "\<lparr>elems = 2 # replicate 33 2, spare = []\<rparr>"]
      Unmarshal_version_instance [OF d, of "\<lparr>elems = 1 # replicate 33 3, spare = []\<rparr>"]
      Unmarshal_version_instance [OF d, of "\<lparr>elems = 1 # replicate 33 2, spare = []\<rparr>"] ok
    by (simp add: airgap_1_def slot_bytes_def)
qed

text \<open>
  C7 as stated fails. An envelope of 34 bytes whose version byte 0 is below the configured
  version 1 and whose instance id differs in every byte is not answered with the error
  "incorrect instance": the version is compared first and the error is "version less
  than supported". And not every envelope reaches the comparisons: the one-byte envelope
  with version byte 0 and no capacity behind it is answered with a panic, not with the
  version error.
\<close>

theorem Unmarshal_version_first_counterexample:
  "Unmarshal airgap_1 \<lparr>elems = 0 # replicate 33 3, spare = []\<rparr> = Error ErrVersionLess \<and>
   Unmarshal airgap_1 \<lparr>elems = [0], spare = []\<rparr> = Panic"
  by (simp add: Unmarshal_def decrypt_input_def airgap_1_def airGapMessagesOffset_def
      compressedPubKeySize_def)

text \<open>
  C10 (amended). \<open>Unmarshal\<close> reads \<open>data[0]\<close> and \<open>data[1:34]\<close> before any check. For
  every input (after decryption) shorter than 34 bytes: if it is empty, or its capacity
  is below 34 bytes, the read is out of bounds, \<open>Unmarshal\<close> panics and returns no error
  value. If it is not empty and its capacity is 34 bytes or more, nothing stops it: the
  slice expression \<open>data[1:34]\<close> is checked against the capacity, the 33 bytes of the
  instance id are read past the length of the input from its backing array, and
  \<open>Unmarshal\<close> returns without a panic: the error "version less than supported" or
  "version greater than supported" when the version byte differs from the configured
  version, else the error "incorrect instance" when those 33 bytes differ from the
  configured instance id, else a message with no operations.
\<close>

theorem Unmarshal_short_input:
  assumes "decrypt_input a data = Some d" and "length (elems d) < 34"
  shows "(elems d = [] \<or> length (elems d) + length (spare d) < 34 \<longrightarrow>
            Unmarshal a data = Panic) \<and>
         (elems d \<noteq> [] \<and> 34 \<le> length (elems d) + length (spare d) \<longrightarrow>
            Unmarshal a data =
              (if elems d ! 0 < a_version a then Error ErrVersionLess
               else if a_version a < elems d ! 0 then Error ErrVersionGreater
               else if take 33 (drop 1 (elems d @ spare d)) \<noteq> slot_bytes (a_instanceId a)
                 then Error ErrIncorrectInstance
               else Ok \<lparr>m_Version = a_version a, m_InstanceId = a_instanceId a,
                        m_Payload = [], m_chunkSize = a_chunkSize a,
                        m_e = map_option Encrypt (a_ed a)\<rparr>))"
proof (intro conjI impI)
  assume "elems d = [] \<or> length (elems d) + length (spare d) < 34"
  then show "Unmarshal a data = Panic"
    using assms(1)
    by (auto simp add: Unmarshal_def airGapMessagesOffset_def compressedPubKeySize_def)
next
  assume h: "elems d \<noteq> [] \<and> 34 \<le> length (elems d) + length (spare d)"
  have stop: "Unmarshal_loop d 34 m = Ok m" for m
    by (subst Unmarshal_loop.simps) (use assms(2) in simp)
  have cm: "CreateMessage a = Ok \<lparr>m_Version = a_version a, m_InstanceId = a_instanceId a,
                        m_Payload = [], m_chunkSize = a_chunkSize a,
                        m_e = map_option Encrypt (a_ed a)\<rparr>"
    if "take 33 (drop 1 (elems d @ spare d)) = slot_bytes (a_instanceId a)"
  proof -
    have "33 \<le> length (elems d) + length (spare d) - 1" using h by arith
    then have "length (take 33 (drop 1 (elems d @ spare d))) = 33"
      by (simp del: take_append drop_append)
    then have "slot_bytes (a_instanceId a) \<noteq> []" using that by auto
    then show ?thesis
      by (auto simp add: CreateMessage_def slot_bytes_def split: option.splits)
  qed
  show "Unmarshal a data =
              (if elems d ! 0 < a_version a then Error ErrVersionLess
               else if a_version a < elems d ! 0 then Error ErrVersionGreater
               else if take 33 (drop 1 (elems d @ spare d)) \<noteq> slot_bytes (a_instanceId a)
                 then Error ErrIncorrectInstance
               else Ok \<lparr>m_Version = a_version a, m_InstanceId = a_instanceId a,
                        m_Payload = [], m_chunkSize = a_chunkSize a,
                        m_e = map_option Encrypt (a_ed a)\<rparr>)"
    unfolding Unmarshal_header [OF assms(1) conjunct1 [OF h] conjunct2 [OF h]]
    by (simp add: cm stop)
qed

theorem Unmarshal_short_input_witness:
  "Unmarshal airgap_1 \<lparr>elems = [], spare = replicate 40 0\<rparr> = Panic \<and>
   Unmarshal airgap_1 \<lparr>elems = 1 # replicate 32 2, spare = []\<rparr> = Panic \<and>
   Unmarshal airgap_1 \<lparr>elems = [1], spare = replicate 33 3\<rparr> = Error ErrIncorrectInstance \<and>
   Unmarshal airgap_1 \<lparr>elems = [1], spare = replicate 33 2\<rparr>
     = Ok \<lparr>m_Version = 1, m_InstanceId = Some (replicate 33 2), m_Payload = [],
           m_chunkSize = 192, m_e = None\<rparr>"
proof -
  have d: "decrypt_input airgap_1 x = Some x" for x
    by (simp add: decrypt_input_def airgap_1_def)
  show ?thesis
    using Unmarshal_short_input [OF d, of "\<lparr>elems = [], spare = replicate 40 0\<rparr>"]
      Unmarshal_short_input [OF d, of "\<lparr>elems = 1 # replicate 32 2, spare = []\<rparr>"]
      Unmarshal_short_input [OF d, of "\<lparr>elems = [1], spare = replicate 33 3\<rparr>"]
      Unmarshal_short_input [OF d, of "\<lparr>elems = [1], spare = replicate 33 2\<rparr>"]
    by (simp add: airgap_1_def slot_bytes_def defaultChunkSize_def)
qed

text \<open>
  C10 as stated fails for a short input with room behind it. Go checks the slice
  expression \<open>data[1:34]\<close> against the capacity: an input of one byte in a backing array
  of 512 bytes (what \<open>io.ReadAll\<close> returns for it) is read past its length, and
  \<open>Unmarshal\<close> returns an error value.
\<close>

theorem Unmarshal_short_input_counterexample:
  "Unmarshal airgap_1 \<lparr>elems = [0], spare = replicate 511 0\<rparr> = Error ErrVersionLess"
  by (simp add: Unmarshal_def decrypt_input_def airgap_1_def airGapMessagesOffset_def
      compressedPubKeySize_def)

section \<open>Operation records: \<open>Marshal\<close> and the loop of \<open>Unmarshal\<close>\<close>

lemma u16be_split: "u16be (ucast (drop_bit 8 w)) (ucast w) = (w :: uint16)"
  unfolding u16be_def
  by (rule bit_word_eqI) (auto simp add: bit_simps)

lemma u32be_split:
  "u32be (ucast (drop_bit 24 w)) (ucast (drop_bit 16 w)) (ucast (drop_bit 8 w)) (ucast w) = (w :: uint32)"
  unfolding u32be_def
proof (rule bit_word_eqI)
  fix n assume "n < LENGTH(32)"
  then consider "n < 8" | "8 \<le> n" "n < 16" | "16 \<le> n" "n < 24" | "24 \<le> n" "n < 32"
    by fastforce
  then show "bit (ucast (ucast w :: byte) OR push_bit 8 (ucast (ucast (drop_bit 8 w) :: byte))
               OR push_bit 16 (ucast (ucast (drop_bit 16 w) :: byte))
               OR push_bit 24 (ucast (ucast (drop_bit 24 w) :: byte)) :: uint32) n = bit w n"
    by cases (auto simp add: bit_simps)
qed

lemma length_op_header [simp]: "length (op_header c sz) = 6"
  by (simp add: op_header_def)

lemma length_op_body [simp]: "length (op_body p) = unat (op_Size p)"
  by (simp add: op_body_def)

lemma header_at:
  assumes "elems d = pre @ op_header c sz @ rest"
  shows "u16be (elems d ! length pre) (elems d ! (length pre + 1)) = c"
    and "u32be (elems d ! (length pre + 2)) (elems d ! (length pre + 3))
           (elems d ! (length pre + 4)) (elems d ! (length pre + 5)) = sz"
    and "drop (length pre + 6) (elems d @ spare d) = rest @ spare d"
    and "length (elems d) = length pre + 6 + length rest"
  using assms
  by (simp_all add: nth_append op_header_def u16be_split u32be_split)

lemma Unmarshal_loop_trailing:
  assumes e: "elems d = pre @ op_header c sz @ rest" and short: "length rest \<le> unat sz"
  shows "Unmarshal_loop d (length pre) msg =
           (if length rest + length (spare d) < unat sz then Panic
            else Ok (msg\<lparr>m_Payload := m_Payload msg @
                      [\<lparr>op_OpCode = c, op_Size = sz, op_Data = take (unat sz) (rest @ spare d)\<rparr>]\<rparr>))"
proof -
  note h = header_at [OF e]
  have len: "length (take (unat sz) (rest @ spare d)) = unat sz"
    if "\<not> length rest + length (spare d) < unat sz"
    using that by simp
  have stop: "Unmarshal_loop d (length pre + (6 + unat sz)) m = Ok m" for m
    by (subst Unmarshal_loop.simps) (use h(4) short in simp)
  show ?thesis
    by (subst Unmarshal_loop.simps)
       (use h short in \<open>auto simp add: Let_def operationPayloadOffset_def stop AddOperation_def len\<close>)
qed

lemma Unmarshal_loop_record:
  assumes e: "elems d = pre @ op_header c sz @ body @ rest" and b: "length body = unat sz"
  shows "Unmarshal_loop d (length pre) msg =
           Unmarshal_loop d (length pre + 6 + unat sz)
             (msg\<lparr>m_Payload := m_Payload msg @ [\<lparr>op_OpCode = c, op_Size = sz, op_Data = body\<rparr>]\<rparr>)"
proof -
  note h = header_at [OF e]
  show ?thesis
    by (subst Unmarshal_loop.simps)
       (use h b in \<open>simp add: Let_def operationPayloadOffset_def AddOperation_def add.assoc\<close>)
qed

lemma Unmarshal_loop_records:
  assumes "elems d = pre @ concat (map op_record ps) @ rest"
  shows "Unmarshal_loop d (length pre) msg =
           Unmarshal_loop d (length pre + length (concat (map op_record ps)))
             (msg\<lparr>m_Payload := m_Payload msg @ map op_parsed ps\<rparr>)"
  using assms
proof (induction ps arbitrary: pre msg)
  case Nil
  then show ?case by simp
next
  case (Cons p ps)
  have e: "elems d = pre @ op_header (op_OpCode p) (op_Size p) @ op_body p
             @ (concat (map op_record ps) @ rest)"
    using Cons.prems by (simp add: op_record_def [of p])
  have e': "elems d = (pre @ op_record p) @ concat (map op_record ps) @ rest"
    using Cons.prems by simp
  have l: "length (pre @ op_record p) = length pre + 6 + unat (op_Size p)"
    by (simp add: op_record_def [of p])
  show ?case
    unfolding Unmarshal_loop_record [OF e length_op_body]
    using Cons.IH [OF e', unfolded l]
    by (simp add: op_parsed_def [of p] op_record_def [of p] add.assoc)
qed

lemma Marshal_loop_records:
  assumes "list_all (\<lambda>p. unat (op_Size p) < 2 ^ 32 - 6) ps"
  shows "Marshal_loop ps pre = Ok (pre @ concat (map op_record ps))"
  using assms
proof (induction ps arbitrary: pre)
  case Nil
  then show ?case by simp
next
  case (Cons p ps)
  then have "unat (op_Size p) < 2 ^ 32 - 6" by simp
  then have n: "unat (6 + op_Size p) = 6 + unat (op_Size p)"
    by (simp add: unat_word_ariths)
  show ?case
    using Cons by (simp add: n Let_def op_record_def [of p] op_body_def [of p])
qed

lemma unat_6_plus:
  fixes s :: uint32
  assumes "\<not> unat (6 + s) < 6"
  shows "unat (6 + s) = 6 + unat s"
proof (cases "6 + unat s < 2 ^ 32")
  case True
  then show ?thesis by (simp add: unat_word_ariths)
next
  case False
  have "unat s < 2 ^ 32" using unsigned_less [of s, where 'a = nat] by simp
  have "unat (6 + s) = (6 + unat s) mod 2 ^ 32" by (simp add: unat_word_ariths)
  also have "\<dots> = 6 + unat s - 2 ^ 32"
    using False \<open>unat s < 2 ^ 32\<close> by (simp add: mod_if)
  also have "\<dots> < 6" using \<open>unat s < 2 ^ 32\<close> False by simp
  finally show ?thesis using assms by simp
qed

lemma Marshal_loop_Ok:
  "Marshal_loop ps pre = Ok w \<Longrightarrow> w = pre @ concat (map op_record ps)"
proof (induction ps arbitrary: pre)
  case Nil
  then show ?case by simp
next
  case (Cons p ps)
  from Cons.prems have n: "\<not> unat (6 + op_Size p) < 6"
    by (auto simp add: Let_def split: if_splits)
  from Cons.prems have "Marshal_loop ps (pre @ op_record p) = Ok w"
    by (simp add: Let_def n unat_6_plus [OF n] op_record_def [of p] op_body_def [of p])
  from Cons.IH [OF this] show ?case by simp
qed

text \<open>
  C9 (amended). Take an envelope (after decryption) with the configured version and
  instance id, the records that \<open>Marshal\<close> wrote for any operations, and a last record
  whose size field \<open>sz\<close> exceeds the bytes \<open>rest\<close> that follow its header. \<open>Unmarshal\<close>
  returns no error for it. When the declared end lies beyond the capacity of the input,
  the slice expression \<open>data[iter+6:iter+bytesReaded]\<close> panics; otherwise the data of the
  last operation is read past the length of the input, from its backing array, and the
  message is returned.
\<close>

theorem Unmarshal_truncated_record:
  assumes dec: "decrypt_input a data = Some d"
    and iid: "a_instanceId a = Some iid" "length iid = 33"
    and w: "Marshal_loop ps (a_version a # iid) = Ok w"
    and e: "elems d = w @ op_header opCode sz @ rest"
    and short: "length rest < unat sz"
  shows "Unmarshal a data =
           (if length rest + length (spare d) < unat sz then Panic
            else Ok \<lparr>m_Version = a_version a, m_InstanceId = Some iid,
                     m_Payload = map op_parsed ps @
                       [\<lparr>op_OpCode = opCode, op_Size = sz,
                         op_Data = take (unat sz) (rest @ spare d)\<rparr>],
                     m_chunkSize = a_chunkSize a, m_e = map_option Encrypt (a_ed a)\<rparr>)"
proof -
  let ?pre = "a_version a # iid"
  let ?recs = "concat (map op_record ps)"
  let ?m0 = "\<lparr>m_Version = a_version a, m_InstanceId = Some iid, m_Payload = [],
              m_chunkSize = a_chunkSize a, m_e = map_option Encrypt (a_ed a)\<rparr>"
  have w': "w = ?pre @ ?recs" by (rule Marshal_loop_Ok [OF w])
  have e1: "elems d = ?pre @ ?recs @ (op_header opCode sz @ rest)" using e w' by simp
  have e2: "elems d = (?pre @ ?recs) @ op_header opCode sz @ rest" using e w' by simp
  have lp: "length ?pre = airGapMessagesOffset"
    using iid by (simp add: airGapMessagesOffset_def compressedPubKeySize_def)
  have loop: "Unmarshal_loop d airGapMessagesOffset ?m0 =
      (if length rest + length (spare d) < unat sz then Panic
       else Ok (?m0\<lparr>m_Payload := map op_parsed ps @
                  [\<lparr>op_OpCode = opCode, op_Size = sz,
                    op_Data = take (unat sz) (rest @ spare d)\<rparr>]\<rparr>))"
  proof -
    have l2: "length (?pre @ ?recs) = airGapMessagesOffset + length ?recs"
      using lp by simp
    show ?thesis
      unfolding Unmarshal_loop_records [OF e1, of ?m0, unfolded lp]
        Unmarshal_loop_trailing [OF e2 less_imp_le [OF short], unfolded l2]
      by simp
  qed
  have hd: "elems d \<noteq> []" "elems d ! 0 = a_version a"
    "take (airGapMessagesOffset - 1) (drop 1 (elems d @ spare d)) = iid"
    "\<not> length (elems d) + length (spare d) < airGapMessagesOffset"
    using e1 iid by (simp_all add: airGapMessagesOffset_def compressedPubKeySize_def)
  show ?thesis
    unfolding Unmarshal_def
    using dec hd iid(1) loop
    by (simp add: Let_def slot_bytes_def CreateMessage_def)
qed

theorem Unmarshal_truncated_record_witness:
  "Unmarshal airgap_1 \<lparr>elems = 1 # replicate 33 2 @ [0, 1, 0, 0, 0, 5, 9, 9], spare = []\<rparr>
     = Panic \<and>
   Unmarshal airgap_1
     \<lparr>elems = 1 # replicate 33 2 @ [0, 1, 0, 0, 0, 5, 9, 9], spare = [7, 7, 7, 7]\<rparr>
     = Ok \<lparr>m_Version = 1, m_InstanceId = Some (replicate 33 2),
           m_Payload = [\<lparr>op_OpCode = 1, op_Size = 5, op_Data = [9, 9, 7, 7, 7]\<rparr>],
           m_chunkSize = 192, m_e = None\<rparr>"
proof -
  have d: "decrypt_input airgap_1 x = Some x" for x
    by (simp add: decrypt_input_def airgap_1_def)
  have h: "op_header 1 5 = [0, 1, 0, 0, 0, 5]" by (simp add: op_header_def)
  show ?thesis
    using Unmarshal_truncated_record
        [OF d [of "\<lparr>elems = 1 # replicate 33 2 @ [0, 1, 0, 0, 0, 5, 9, 9], spare = []\<rparr>"],
         where iid = "replicate 33 2" and ps = "[]"
         and w = "1 # replicate 33 2" and opCode = 1 and sz = 5 and rest = "[9, 9]"]
      Unmarshal_truncated_record
        [OF d [of "\<lparr>elems = 1 # replicate 33 2 @ [0, 1, 0, 0, 0, 5, 9, 9],
                   spare = [7, 7, 7, 7]\<rparr>"],
         where iid = "replicate 33 2" and ps = "[]"
         and w = "1 # replicate 33 2" and opCode = 1 and sz = 5 and rest = "[9, 9]"]
    by (simp add: airgap_1_def h defaultChunkSize_def)
qed

text \<open>
  C9 as stated fails: after one complete record, a record that declares 5 bytes and has 2
  ends in a panic, not in a truncated-operation error.
\<close>

theorem Unmarshal_truncated_record_counterexample:
  "Unmarshal airgap_1
     \<lparr>elems = 1 # replicate 33 2 @ [0, 7, 0, 0, 0, 1, 0x61] @ [0, 1, 0, 0, 0, 5, 9, 9],
      spare = []\<rparr> = Panic"
  by (simp add: Unmarshal_def decrypt_input_def airgap_1_def airGapMessagesOffset_def
      compressedPubKeySize_def slot_bytes_def CreateMessage_def Unmarshal_loop.simps
      nth_append Let_def u32be_def operationPayloadOffset_def)

section \<open>The envelope round trip\<close>

lemma AddOperations_Payload:
  "m_Payload (AddOperations m ops) = m_Payload m @ map op_of ops"
  unfolding AddOperations_def
  by (induction ops arbitrary: m) (auto simp add: AddOperation_def op_of_def)

lemma AddOperations_fields:
  "m_Version (AddOperations m ops) = m_Version m"
  "m_InstanceId (AddOperations m ops) = m_InstanceId m"
  "m_e (AddOperations m ops) = m_e m"
  unfolding AddOperations_def
  by (induction ops arbitrary: m) (auto simp add: AddOperation_def)

lemma op_of_record:
  assumes "length (snd x) < 2 ^ 32 - 6"
  shows "unat (op_Size (op_of x)) < 2 ^ 32 - 6" and "op_parsed (op_of x) = op_of x"
proof -
  have "length (snd x) < 2 ^ 32" using assms by simp
  then have u: "unat (of_nat (length (snd x)) :: uint32) = length (snd x)"
    by (simp add: unat_of_nat)
  show "unat (op_Size (op_of x)) < 2 ^ 32 - 6" using assms u by (simp add: op_of_def)
  show "op_parsed (op_of x) = op_of x" using u by (simp add: op_parsed_def op_of_def op_body_def)
qed

text \<open>
  C8 (amended). In a context with an instance id of 33 bytes, with no capability bound or
  with one whose \<open>Decrypt\<close> inverts its \<open>Encrypt\<close>, for every list of operations whose
  data are each shorter than \<open>2^32 - 6\<close> bytes: the message built by \<open>CreateMessage\<close> and
  \<open>AddOperation\<close> is marshalled, and \<open>Unmarshal\<close> in the same context returns a message
  whose operations are the input list in the same order, each with its code, the length
  of its data as size, and its data.
\<close>

theorem Marshal_Unmarshal_roundtrip:
  assumes iid: "a_instanceId a = Some iid" "length iid = 33"
    and len: "list_all (\<lambda>(opCode, dat). length dat < 2 ^ 32 - 6) ops"
    and ed: "\<And>ed x. a_ed a = Some ed \<Longrightarrow>
               \<exists>c. Encrypt ed x = Some c \<and> map_option elems (Decrypt ed c) = Some x"
  shows "\<exists>m wire. CreateMessage a = Ok m \<and> Marshal (AddOperations m ops) = Ok wire \<and>
           (\<forall>sp. \<exists>m'. Unmarshal a \<lparr>elems = wire, spare = sp\<rparr> = Ok m' \<and>
              m_Payload m' = map (\<lambda>(opCode, dat).
                \<lparr>op_OpCode = opCode, op_Size = of_nat (length dat), op_Data = dat\<rparr>) ops)"
proof -
  let ?m0 = "\<lparr>m_Version = a_version a, m_InstanceId = Some iid, m_Payload = [],
              m_chunkSize = a_chunkSize a, m_e = map_option Encrypt (a_ed a)\<rparr>"
  let ?pre = "a_version a # iid"
  let ?ps = "map op_of ops"
  let ?plain = "?pre @ concat (map op_record ?ps)"
  have cm: "CreateMessage a = Ok ?m0" using iid by (simp add: CreateMessage_def)
  have ops: "\<And>x. x \<in> set ops \<Longrightarrow> length (snd x) < 2 ^ 32 - 6"
    using len by (auto simp add: list_all_iff)
  have sizes: "list_all (\<lambda>p. unat (op_Size p) < 2 ^ 32 - 6) ?ps"
    unfolding list_all_iff
  proof
    fix p assume "p \<in> set ?ps"
    then obtain x where "x \<in> set ops" "p = op_of x" by auto
    then show "unat (op_Size p) < 2 ^ 32 - 6" using ops op_of_record(1) by blast
  qed
  have parsed: "map op_parsed ?ps = ?ps"
    using ops by (simp add: op_of_record(2))
  have of: "?ps = map (\<lambda>(opCode, dat).
                \<lparr>op_OpCode = opCode, op_Size = of_nat (length dat), op_Data = dat\<rparr>) ops"
    by (simp add: op_of_def case_prod_unfold)
  have ml: "Marshal_loop (m_Payload (AddOperations ?m0 ops))
              (m_Version (AddOperations ?m0 ops) # slot_bytes (m_InstanceId (AddOperations ?m0 ops)))
            = Ok ?plain"
    using Marshal_loop_records [OF sizes, of ?pre]
    by (simp add: AddOperations_Payload AddOperations_fields slot_bytes_def)
  have lp: "length ?pre = airGapMessagesOffset"
    using iid by (simp add: airGapMessagesOffset_def compressedPubKeySize_def)
  have body: "\<exists>m'. Unmarshal_loop d airGapMessagesOffset ?m0 = Ok m' \<and> m_Payload m' = ?ps"
    if "elems d = ?plain" for d
  proof -
    have e: "elems d = ?pre @ concat (map op_record ?ps) @ []" using that by simp
    have stop: "Unmarshal_loop d (length (elems d)) m = Ok m" for m
      by (subst Unmarshal_loop.simps) simp
    have "length (elems d) = airGapMessagesOffset + length (concat (map op_record ?ps))"
      using that lp by simp
    with Unmarshal_loop_records [OF e, of ?m0, unfolded lp parsed]
      stop [of "?m0\<lparr>m_Payload := ?ps\<rparr>"]
    show ?thesis
      by simp
  qed
  have um: "\<exists>m'. Unmarshal a data = Ok m' \<and> m_Payload m' = ?ps"
    if "decrypt_input a data = Some d" "elems d = ?plain" for data d
  proof -
    have hd: "elems d \<noteq> []" "elems d ! 0 = a_version a"
      "take (airGapMessagesOffset - 1) (drop 1 (elems d @ spare d)) = iid"
      "\<not> length (elems d) + length (spare d) < airGapMessagesOffset"
      using that(2) iid by (simp_all add: airGapMessagesOffset_def compressedPubKeySize_def)
    show ?thesis
      unfolding Unmarshal_def
      using that(1) hd iid(1) body [OF that(2)]
      by (simp add: Let_def slot_bytes_def CreateMessage_def)
  qed
  show ?thesis
  proof (cases "a_ed a")
    case None
    have "Marshal (AddOperations ?m0 ops) = Ok ?plain"
      using ml None by (simp add: Marshal_def AddOperations_fields)
    moreover have "\<exists>m'. Unmarshal a \<lparr>elems = ?plain, spare = sp\<rparr> = Ok m' \<and> m_Payload m' = ?ps" for sp
      using um [of "\<lparr>elems = ?plain, spare = sp\<rparr>" "\<lparr>elems = ?plain, spare = sp\<rparr>"] None
      by (simp add: decrypt_input_def)
    ultimately show ?thesis using cm of by auto
  next
    case (Some ed)
    from ed [OF Some, of ?plain] obtain c d where
      c: "Encrypt ed ?plain = Some c" and d: "Decrypt ed c = Some d" "elems d = ?plain"
      by auto
    have "Marshal (AddOperations ?m0 ops) = Ok c"
      using ml Some c by (simp add: Marshal_def AddOperations_fields)
    moreover have "\<exists>m'. Unmarshal a \<lparr>elems = c, spare = sp\<rparr> = Ok m' \<and> m_Payload m' = ?ps" for sp
      using um [of "\<lparr>elems = c, spare = sp\<rparr>" d] Some d
      by (simp add: decrypt_input_def)
    ultimately show ?thesis using cm of by auto
  qed
qed

lemma Marshal_abc: "Marshal (AddOperations message_1 ops_abc) = Ok wire_abc"
  by (simp add: Marshal_def AddOperations_def AddOperation_def message_1_def ops_abc_def
      wire_abc_def op_header_def slot_bytes_def Let_def)

theorem Marshal_Unmarshal_roundtrip_witness:
  "CreateMessage airgap_1 = Ok message_1 \<and>
   Marshal (AddOperations message_1 ops_abc) = Ok wire_abc \<and>
   (\<forall>sp. \<exists>m'. Unmarshal airgap_1 \<lparr>elems = wire_abc, spare = sp\<rparr> = Ok m' \<and>
      m_Payload m' =
        [\<lparr>op_OpCode = 1, op_Size = 1, op_Data = [0x61]\<rparr>,
         \<lparr>op_OpCode = 1000, op_Size = 2, op_Data = [0x62, 0x62]\<rparr>,
         \<lparr>op_OpCode = 65535, op_Size = 3, op_Data = [0x63, 0x63, 0x63]\<rparr>]) \<and>
   (\<exists>m wire. CreateMessage (SetEncryptorDecryptor airgap_1 (Some flip_ed)) = Ok m \<and>
      Marshal (AddOperations m ops_abc) = Ok wire \<and>
      (\<forall>sp. \<exists>m'. Unmarshal (SetEncryptorDecryptor airgap_1 (Some flip_ed))
                     \<lparr>elems = wire, spare = sp\<rparr> = Ok m' \<and>
         m_Payload m' =
           [\<lparr>op_OpCode = 1, op_Size = 1, op_Data = [0x61]\<rparr>,
            \<lparr>op_OpCode = 1000, op_Size = 2, op_Data = [0x62, 0x62]\<rparr>,
            \<lparr>op_OpCode = 65535, op_Size = 3, op_Data = [0x63, 0x63, 0x63]\<rparr>]))"
proof -
  have cm: "CreateMessage airgap_1 = Ok message_1"
    by (simp add: CreateMessage_def airgap_1_def message_1_def)
  have plain:
    "\<exists>m wire. CreateMessage airgap_1 = Ok m \<and> Marshal (AddOperations m ops_abc) = Ok wire \<and>
       (\<forall>sp. \<exists>m'. Unmarshal airgap_1 \<lparr>elems = wire, spare = sp\<rparr> = Ok m' \<and>
          m_Payload m' =
            [\<lparr>op_OpCode = 1, op_Size = 1, op_Data = [0x61]\<rparr>,
             \<lparr>op_OpCode = 1000, op_Size = 2, op_Data = [0x62, 0x62]\<rparr>,
             \<lparr>op_OpCode = 65535, op_Size = 3, op_Data = [0x63, 0x63, 0x63]\<rparr>])"
    using Marshal_Unmarshal_roundtrip [of airgap_1 "replicate 33 2" ops_abc]
    by (simp add: airgap_1_def ops_abc_def)
  have flipped:
    "\<exists>m wire. CreateMessage (SetEncryptorDecryptor airgap_1 (Some flip_ed)) = Ok m \<and>
      Marshal (AddOperations m ops_abc) = Ok wire \<and>
      (\<forall>sp. \<exists>m'. Unmarshal (SetEncryptorDecryptor airgap_1 (Some flip_ed))
                     \<lparr>elems = wire, spare = sp\<rparr> = Ok m' \<and>
         m_Payload m' =
           [\<lparr>op_OpCode = 1, op_Size = 1, op_Data = [0x61]\<rparr>,
            \<lparr>op_OpCode = 1000, op_Size = 2, op_Data = [0x62, 0x62]\<rparr>,
            \<lparr>op_OpCode = 65535, op_Size = 3, op_Data = [0x63, 0x63, 0x63]\<rparr>])"
  proof -
    have inv: "\<exists>c. Encrypt ed x = Some c \<and> map_option elems (Decrypt ed c) = Some x"
      if "a_ed (SetEncryptorDecryptor airgap_1 (Some flip_ed)) = Some ed" for ed x
      using that by (auto simp add: SetEncryptorDecryptor_def flip_ed_def comp_def)
    show ?thesis
      using Marshal_Unmarshal_roundtrip
        [of "SetEncryptorDecryptor airgap_1 (Some flip_ed)" "replicate 33 2" ops_abc, OF _ _ _ inv]
      by (simp add: airgap_1_def ops_abc_def SetEncryptorDecryptor_def)
  qed
  from plain cm Marshal_abc flipped show ?thesis by simp
qed

text \<open>
  C8 as stated fails for data of \<open>2^32 - 6\<close> bytes: the size of the record,
  \<open>operationPayloadOffset+Size\<close>, wraps to 0 in \<open>uint32\<close> and \<open>Marshal\<close> panics on the
  first header byte.
\<close>

theorem Marshal_4GiB_counterexample:
  "Marshal (AddOperations message_1 [(1, replicate 4294967290 0)]) = Panic"
  by (simp add: Marshal_def AddOperations_def AddOperation_def message_1_def Let_def)

section \<open>The base64 instance inverts itself\<close>

lemma b64_index_char: "v < 64 \<Longrightarrow> b64_index (b64_char v) = Some v"
  by (auto simp add: b64_index_def b64_char_def Let_def)

lemma b64_char_code:
  assumes "v < 64"
  shows "of_char (b64_char v) \<notin> {61, 10, 13 :: nat}"
  using assms by (auto simp add: b64_char_def)

lemma sextet_bounds:
  fixes x y z :: nat
  assumes "x < 256" "y < 256" "z < 256"
  shows "x div 4 < 64" "x mod 4 * 16 + y div 16 < 64" "y mod 16 * 4 + z div 64 < 64"
    "z mod 64 < 64" "x mod 4 * 16 < 64" "y mod 16 * 4 < 64"
proof -
  have "x mod 4 < 4" "y mod 16 < 16" "y div 16 < 16" "z div 64 < 4" using assms by simp_all
  then show "x mod 4 * 16 + y div 16 < 64" "y mod 16 * 4 + z div 64 < 64"
    "x mod 4 * 16 < 64" "y mod 16 * 4 < 64" by linarith+
  show "x div 4 < 64" "z mod 64 < 64" using assms by simp_all
qed

lemma div_mod_pack:
  fixes a b k :: nat
  assumes "b < k"
  shows "(a * k + b) div k = a" and "(a * k + b) mod k = b"
  using assms by simp_all

lemma sextet_bytes:
  fixes x y z :: nat
  assumes "x < 256" "y < 256" "z < 256"
  shows "x div 4 * 4 + (x mod 4 * 16 + y div 16) div 16 = x"
    and "(x mod 4 * 16 + y div 16) mod 16 * 16 + (y mod 16 * 4 + z div 64) div 4 = y"
    and "(y mod 16 * 4 + z div 64) mod 4 * 64 + z mod 64 = z"
    and "x div 4 * 4 + (x mod 4 * 16) div 16 = x"
    and "(x mod 4 * 16 + y div 16) mod 16 * 16 + (y mod 16 * 4) div 4 = y"
proof -
  have b: "y div 16 < 16" "z div 64 < 4" using assms by simp_all
  show "x div 4 * 4 + (x mod 4 * 16 + y div 16) div 16 = x"
    by (simp add: div_mod_pack(1) [OF b(1)])
  show "(x mod 4 * 16 + y div 16) mod 16 * 16 + (y mod 16 * 4 + z div 64) div 4 = y"
    using b by (simp add: div_mod_pack(1) [OF b(2)])
  show "(y mod 16 * 4 + z div 64) mod 4 * 64 + z mod 64 = z"
    using b by simp
  show "x div 4 * 4 + (x mod 4 * 16) div 16 = x" by simp
  show "(x mod 4 * 16 + y div 16) mod 16 * 16 + (y mod 16 * 4) div 4 = y"
    using b by simp
qed


lemma b64_char_plain:
  assumes "v < 64"
  shows "b64_char v \<noteq> CHR ''=''" and "b64_char v \<noteq> CHR 0x0A" and "b64_char v \<noteq> CHR 0x0D"
  using b64_char_code [OF assms] by auto

lemma b64_encode_plain:
  "filter (\<lambda>c. c \<noteq> CHR 0x0A \<and> c \<noteq> CHR 0x0D) (b64_encode bs) = b64_encode bs"
proof (induction bs rule: b64_encode.induct)
  case (1 x y z rest)
  have u: "unat x < 256" "unat y < 256" "unat z < 256"
    using unsigned_less [of x, where 'a = nat] unsigned_less [of y, where 'a = nat]
      unsigned_less [of z, where 'a = nat] by simp_all
  show ?case using 1 by (simp add: b64_char_plain sextet_bounds [OF u])
next
  case (2 x y)
  have u: "unat x < 256" "unat y < 256"
    using unsigned_less [of x, where 'a = nat] unsigned_less [of y, where 'a = nat] by simp_all
  show ?case by (simp add: b64_char_plain sextet_bounds [OF u u(1)])
next
  case (3 x)
  have u: "unat x < 256" using unsigned_less [of x, where 'a = nat] by simp
  show ?case by (simp add: b64_char_plain sextet_bounds [OF u u u])
next
  case 4
  show ?case by simp
qed

lemma b64_bytes_sextets:
  "b64_bytes (unat a div 4) (unat a mod 4 * 16 + unat b div 16)
     (unat b mod 16 * 4 + unat c div 64) (unat c mod 64) = [a, b, c]"
  "take 2 (b64_bytes (unat a div 4) (unat a mod 4 * 16 + unat b div 16) (unat b mod 16 * 4) 0)
     = [a, b]"
  "take 1 (b64_bytes (unat a div 4) (unat a mod 4 * 16) 0 0) = [a]"
proof -
  have u: "unat a < 256" "unat b < 256" "unat c < 256"
    using unsigned_less [of a, where 'a = nat] unsigned_less [of b, where 'a = nat]
      unsigned_less [of c, where 'a = nat] by simp_all
  note e = sextet_bytes [OF u]
  have "[of_nat (unat a div 4 * 4 + (unat a mod 4 * 16 + unat b div 16) div 16),
         of_nat ((unat a mod 4 * 16 + unat b div 16) mod 16 * 16
                  + (unat b mod 16 * 4 + unat c div 64) div 4),
         of_nat ((unat b mod 16 * 4 + unat c div 64) mod 4 * 64 + unat c mod 64)] = [a, b, c]"
    unfolding e by simp
  then show "b64_bytes (unat a div 4) (unat a mod 4 * 16 + unat b div 16)
     (unat b mod 16 * 4 + unat c div 64) (unat c mod 64) = [a, b, c]"
    unfolding b64_bytes_def .
  have "[of_nat (unat a div 4 * 4 + (unat a mod 4 * 16 + unat b div 16) div 16),
         of_nat ((unat a mod 4 * 16 + unat b div 16) mod 16 * 16 + (unat b mod 16 * 4) div 4)]
        = [a, b]"
    unfolding e by simp
  then show "take 2 (b64_bytes (unat a div 4) (unat a mod 4 * 16 + unat b div 16)
                      (unat b mod 16 * 4) 0) = [a, b]"
    unfolding b64_bytes_def by simp
  have "[of_nat (unat a div 4 * 4 + (unat a mod 4 * 16) div 16)] = [a]"
    unfolding e by simp
  then show "take 1 (b64_bytes (unat a div 4) (unat a mod 4 * 16) 0 0) = [a]"
    unfolding b64_bytes_def by simp
qed

lemma b64_decode_encode: "b64_decode (b64_encode bs) = Some bs"
proof (induction bs rule: b64_encode.induct)
  case (1 x y z rest)
  have u: "unat x < 256" "unat y < 256" "unat z < 256"
    using unsigned_less [of x, where 'a = nat] unsigned_less [of y, where 'a = nat]
      unsigned_less [of z, where 'a = nat] by simp_all
  show ?case
    using 1
    by (simp add: b64_index_char b64_char_plain sextet_bounds [OF u] b64_bytes_sextets)
next
  case (2 x y)
  have u: "unat x < 256" "unat y < 256"
    using unsigned_less [of x, where 'a = nat] unsigned_less [of y, where 'a = nat] by simp_all
  show ?case
    by (simp add: b64_index_char b64_char_plain sextet_bounds [OF u u(1)] b64_bytes_sextets)
next
  case (3 x)
  have u: "unat x < 256" using unsigned_less [of x, where 'a = nat] by simp
  show ?case
    by (simp add: b64_index_char b64_char_plain sextet_bounds [OF u u u]
        b64_bytes_sextets(3) [unfolded One_nat_def])
next
  case 4
  show ?case by simp
qed

lemma DecodeString_encode: "map_option elems (DecodeString (b64_encode bs)) = Some bs"
  by (simp add: DecodeString_def b64_encode_plain b64_decode_encode)

section \<open>The chunk round trip\<close>

lemma u16le_split: "u16le (ucast w) (ucast (drop_bit 8 w)) = (w :: uint16)"
  unfolding u16le_def
  by (rule bit_word_eqI) (auto simp add: bit_simps)

lemma u16le_of_nat:
  "u16le (of_nat n) (of_nat (drop_bit 8 n)) = (of_nat n :: uint16)"
  unfolding u16le_def
  by (rule bit_word_eqI) (auto simp add: bit_simps)

lemma unat_u16: "n < 65536 \<Longrightarrow> unat (of_nat n :: uint16) = n"
  by (simp add: unat_of_nat)

lemma unat_u16_plus6: "n + 6 < 65536 \<Longrightarrow> unat (of_nat n + 6 :: uint16) = n + 6"
  using unat_u16 [of "n + 6"] by simp

lemma unat_u16_6plus: "n + 6 < 65536 \<Longrightarrow> unat (6 + of_nat n :: uint16) = n + 6"
  using unat_u16 [of "n + 6"] by (simp add: add.commute)

lemma frame_shape:
  assumes "sender ch ps cs" and "j < length ps"
  shows "getChunkWithHeader ch (of_nat j) = Ok (frame_of ch j)"
    and "frame_of ch j =
           [ucast (of_nat j :: uint16), ucast (drop_bit 8 (of_nat j :: uint16)),
            ucast (ch_count ch), ucast (drop_bit 8 (ch_count ch)),
            of_nat (length (ps ! j)), of_nat (drop_bit 8 (length (ps ! j)))]
           @ ps ! j @ replicate (cs - length (ps ! j)) 0"
proof -
  have j: "unat (of_nat j :: uint16) = j" using assms by (simp add: sender_def unat_u16)
  have n: "unat (ch_size ch + 6) = cs + 6" using assms by (simp add: sender_def unat_u16_plus6)
  have p: "length (ps ! j) \<le> cs" using assms by (simp add: sender_def list_all_length)
  have d: "ch_data ch ! j = Some (ps ! j)" "j < length (ch_data ch)"
    using assms by (simp_all add: sender_def)
  have g: "getChunkWithHeader ch (of_nat j) =
      Ok ([ucast (of_nat j :: uint16), ucast (drop_bit 8 (of_nat j :: uint16)),
            ucast (ch_count ch), ucast (drop_bit 8 (ch_count ch)),
            of_nat (length (ps ! j)), of_nat (drop_bit 8 (length (ps ! j)))]
           @ ps ! j @ replicate (cs - length (ps ! j)) 0)"
    using p d by (simp add: getChunkWithHeader_def j n Let_def slot_bytes_def)
  then show "frame_of ch j =
           [ucast (of_nat j :: uint16), ucast (drop_bit 8 (of_nat j :: uint16)),
            ucast (ch_count ch), ucast (drop_bit 8 (ch_count ch)),
            of_nat (length (ps ! j)), of_nat (drop_bit 8 (length (ps ! j)))]
           @ ps ! j @ replicate (cs - length (ps ! j)) 0"
    by (simp add: frame_of_def)
  with g show "getChunkWithHeader ch (of_nat j) = Ok (frame_of ch j)" by simp
qed

lemma SerializeB64_loop_sender:
  assumes "sender ch ps cs" and "i \<le> length ps"
  shows "SerializeB64_loop encode ch i acc =
           Ok (acc @ map (\<lambda>j. encode (frame_of ch j)) [i..<length ps])"
  using assms(2)
proof (induction "length ps - i" arbitrary: i acc)
  case 0
  then have "i = length ps" by simp
  moreover have "unat (ch_count ch) = length ps" using assms(1) by (simp add: sender_def unat_u16)
  ultimately show ?case by (subst SerializeB64_loop.simps) simp
next
  case (Suc n)
  then have i: "i < length ps" by simp
  have c: "unat (ch_count ch) = length ps" using assms(1) by (simp add: sender_def unat_u16)
  have "SerializeB64_loop encode ch i acc =
          SerializeB64_loop encode ch (i + 1) (acc @ [encode (frame_of ch i)])"
    by (subst SerializeB64_loop.simps) (simp add: c i frame_shape(1) [OF assms(1) i])
  also have "\<dots> = Ok ((acc @ [encode (frame_of ch i)])
                     @ map (\<lambda>j. encode (frame_of ch j)) [i + 1..<length ps])"
    using Suc by (intro Suc.hyps(1)) simp_all
  finally show ?case using i by (simp add: upt_conv_Cons)
qed

lemma SerializeB64_sender:
  assumes "sender ch ps cs"
  shows "SerializeB64 encode ch = Ok (map (\<lambda>j. encode (frame_of ch j)) [0..<length ps])"
  unfolding SerializeB64_def using SerializeB64_loop_sender [OF assms, of 0 encode "[]"] by simp

lemma filled_update:
  assumes "j < length ps"
  shows "(map (\<lambda>k. if k \<in> S then Some (ps ! k) else None) [0..<length ps]) [j := Some (ps ! j)]
         = map (\<lambda>k. if k \<in> insert j S then Some (ps ! k) else None) [0..<length ps]"
  using assms by (intro nth_equalityI) (auto simp add: nth_list_update)

lemma filled_empty:
  "map (\<lambda>k. if k \<in> {} then Some (ps ! k) else None) [0..<length ps] = replicate (length ps) None"
  by (intro nth_equalityI) auto

lemma read_frame_facts:
  assumes s: "sender ch ps cs" and j: "j < length ps" and c: "c = frame_of ch j"
  shows "6 \<le> length c" "\<not> length c < 4"
    and "u16le (c ! 0) (c ! 1) = of_nat j"
    and "u16le (c ! 2) (c ! 3) = of_nat (length ps)"
    and "unat (6 + u16le (c ! 4) (c ! 5)) = 6 + length (ps ! j)"
    and "take (length (ps ! j)) (drop 6 (c @ sp)) = ps ! j"
    and "length c + length sp \<ge> 6 + length (ps ! j)"
proof -
  note f = frame_shape(2) [OF s j]
  have p: "length (ps ! j) \<le> cs" using s j by (simp add: sender_def list_all_length)
  have cs: "cs + 6 < 65536" using s by (simp add: sender_def)
  have n: "ch_count ch = of_nat (length ps)" using s by (simp add: sender_def)
  show "6 \<le> length c" "\<not> length c < 4" using c f by simp_all
  show "u16le (c ! 0) (c ! 1) = of_nat j" using c f by (simp add: u16le_split)
  show "u16le (c ! 2) (c ! 3) = of_nat (length ps)" using c f n by (simp add: u16le_split)
  have "u16le (c ! 4) (c ! 5) = of_nat (length (ps ! j))" using c f by (simp add: u16le_of_nat)
  then show "unat (6 + u16le (c ! 4) (c ! 5)) = 6 + length (ps ! j)"
    using p cs by (simp add: unat_u16_6plus)
  show "take (length (ps ! j)) (drop 6 (c @ sp)) = ps ! j" using c f by simp
  show "length c + length sp \<ge> 6 + length (ps ! j)" using c f by simp
qed

lemma read_frame_filled:
  assumes s: "sender ch ps cs" and j: "j < length ps"
    and d: "decode f = Some sl" "elems sl = frame_of ch j"
  shows "ReadB64Chunk decode (filled ps S) f = (Ok (j \<notin> S), filled ps (insert j S))"
proof -
  note r0 = read_frame_facts [OF s j d(2)]
  note r = r0(1-5) r0(6) [of "spare sl"] r0(7) [of "spare sl"]
  have N: "length ps < 65536" using s by (simp add: sender_def)
  have uj: "unat (of_nat j :: uint16) = j" using j N by (simp add: unat_u16)
  have "unat (of_nat (length ps) :: uint16) = length ps" using N by (simp add: unat_u16)
  then have nz: "(of_nat (length ps) :: uint16) \<noteq> 0" using j by (metis not_less0 unat_0)
  show ?thesis
  proof (cases "j \<in> S")
    case True
    then have i: "insert j S = S" by auto
    show ?thesis
      using True j r nz
      by (simp add: ReadB64Chunk_def d Let_def filled_def uj i)
  next
    case False
    show ?thesis
      using False j r nz
      by (simp add: ReadB64Chunk_def d Let_def filled_def uj filled_update)
  qed
qed

lemma read_frame_new:
  assumes s: "sender ch ps cs" and j: "j < length ps"
    and d: "decode f = Some sl" "elems sl = frame_of ch j"
  shows "ReadB64Chunk decode NewChunks f = (Ok True, filled ps {j})"
proof -
  note r0 = read_frame_facts [OF s j d(2)]
  note r = r0(1-5) r0(6) [of "spare sl"] r0(7) [of "spare sl"]
  have N: "length ps < 65536" using s by (simp add: sender_def)
  have uj: "unat (of_nat j :: uint16) = j" using j N by (simp add: unat_u16)
  have un: "unat (of_nat (length ps) :: uint16) = length ps" using N by (simp add: unat_u16)
  have upd: "(replicate (length ps) None) [j := Some (ps ! j)]
       = map (\<lambda>k. if k \<in> {j} then Some (ps ! k) else None) [0..<length ps]"
    using filled_update [OF j, of "{}"] by (simp only: filled_empty)
  show ?thesis
    using j r
    by (simp add: ReadB64Chunk_def d Let_def NewChunks_def filled_def uj un upd)
qed

lemma read_frames_filled:
  assumes s: "sender ch ps cs"
    and d: "\<And>j. j < length ps \<Longrightarrow> map_option elems (decode (g j)) = Some (frame_of ch j)"
    and js: "set js \<subseteq> {..<length ps}"
  shows "ReadB64Chunks decode (filled ps S) (map g js) = Ok (filled ps (S \<union> set js))"
  using js
proof (induction js arbitrary: S)
  case Nil
  then show ?case by simp
next
  case (Cons j js)
  then have j: "j < length ps" by simp
  from d [OF j] obtain sl where sl: "decode (g j) = Some sl" "elems sl = frame_of ch j" by auto
  have "S \<union> set (j # js) = insert j S \<union> set js" by auto
  with Cons show ?case
    by (simp add: read_frame_filled [where decode = decode and f = "g j", OF s j sl])
qed

lemma read_frames_new:
  assumes s: "sender ch ps cs"
    and d: "\<And>j. j < length ps \<Longrightarrow> map_option elems (decode (g j)) = Some (frame_of ch j)"
    and js: "set js \<subseteq> {..<length ps}" "js \<noteq> []"
  shows "ReadB64Chunks decode NewChunks (map g js) = Ok (filled ps (set js))"
proof -
  from js obtain j js' where c: "js = j # js'" by (cases js) auto
  then have j: "j < length ps" and js': "set js' \<subseteq> {..<length ps}" using js by auto
  from d [OF j] obtain sl where sl: "decode (g j) = Some sl" "elems sl = frame_of ch j" by auto
  show ?thesis
    using read_frames_filled [OF s d js', of "{j}"]
    by (simp add: c read_frame_new [where decode = decode and f = "g j", OF s j sl])
qed

lemma Data_loop_filled:
  assumes "length ps < 65536" and "i \<le> length ps"
  shows "Data_loop (filled ps {..<length ps}) i acc = Ok (acc @ concat (drop i ps))"
  using assms(2)
proof (induction "length ps - i" arbitrary: i acc)
  case 0
  then show ?case
    using assms(1) by (subst Data_loop.simps) (simp add: filled_def unat_u16)
next
  case (Suc n)
  then have i: "i < length ps" by simp
  have "Data_loop (filled ps {..<length ps}) i acc =
          Data_loop (filled ps {..<length ps}) (i + 1) (acc @ ps ! i)"
    using assms(1) i by (subst Data_loop.simps) (simp add: filled_def unat_u16 slot_bytes_def)
  also have "\<dots> = Ok ((acc @ ps ! i) @ concat (drop (i + 1) ps))"
    using Suc by (intro Suc.hyps(1)) simp_all
  finally show ?case using i by (simp add: Cons_nth_drop_Suc [symmetric])
qed

lemma concat_windows:
  "concat (map (\<lambda>j. take cs (drop (j * cs) cd)) [0..<n]) = take (n * cs) cd"
proof (induction n)
  case 0
  then show ?case by simp
next
  case (Suc n)
  have "take (Suc n * cs) cd = take (n * cs + cs) cd" by (simp add: add.commute)
  also have "\<dots> = take (n * cs) cd @ take cs (drop (n * cs) cd)" by (rule take_add)
  finally show ?case using Suc by simp
qed

lemma windows_cover:
  fixes cs len :: nat
  assumes "0 < cs"
  shows "len \<le> (len + cs - 1) div cs * cs"
proof -
  have "len + cs - 1 < cs + (len + cs - 1) div cs * cs"
    using assms by (rule dividend_less_div_times)
  then show ?thesis using assms by simp
qed

lemma windows_count:
  fixes cs len :: nat
  assumes "0 < cs" and "len \<le> 65535 * cs"
  shows "(len + cs - 1) div cs < 65536"
proof -
  have "len + cs - 1 < 65536 * cs" using assms by simp
  then show ?thesis using assms(1) by (simp add: less_mult_imp_div_less)
qed

lemma SetData_sender:
  assumes s: "7 \<le> s" "s \<le> 65530"
    and gz: "compress b = Some cd"
    and n: "length cd \<le> 65535 * nat (s - 6)"
  shows "\<exists>ch ps. SetData compress b s = Some (Ok ch) \<and> sender ch ps (nat (s - 6)) \<and> concat ps = cd"
proof -
  let ?cs = "nat (s - 6)"
  let ?N = "(length cd + ?cs - 1) div ?cs"
  let ?ps = "map (\<lambda>j. take ?cs (drop (j * ?cs) cd)) [0..<?N]"
  let ?ch = "\<lparr>ch_count = of_nat (length (map Some ?ps)), ch_size = of_int (s - 6),
              ch_data = map Some ?ps\<rparr>"
  have cs: "0 < ?cs" using s by simp
  have c: "chunks_of cd ?cs 0 = map Some ?ps" by (simp add: chunks_of_def)
  have 1: "SetData compress b s = Some (Ok ?ch)"
    using s gz SetData_loop_eq [OF cs, of cd 0 "[]"]
    by (simp add: SetData_def minChunkSize_def chunkHeaderOffset_def c)
  have sz: "(of_int (s - 6) :: uint16) = of_nat ?cs"
    using s by simp
  have 2: "sender ?ch ?ps ?cs"
    unfolding sender_def using s windows_count [OF cs n] sz by (simp add: list_all_iff)
  have 3: "concat ?ps = cd"
    using windows_cover [OF cs, of "length cd"] by (simp add: concat_windows)
  from 1 2 3 show ?thesis by (intro exI [of _ ?ch] exI [of _ ?ps] conjI)
qed

lemma ex_map_subset:
  "set fs \<subseteq> g ` A \<Longrightarrow> \<exists>js. fs = map g js \<and> set js \<subseteq> A"
proof (induction fs)
  case Nil
  then show ?case by simp
next
  case (Cons f fs)
  then obtain j js where "j \<in> A" "f = g j" "fs = map g js" "set js \<subseteq> A" by auto
  then have "f # fs = map g (j # js) \<and> set (j # js) \<subseteq> A" by simp
  then show ?case by (intro exI [of _ "j # js"])
qed

lemma perm_indices:
  assumes m: "mset fs = mset (map g [0..<n])" and inj: "inj_on g {..<n}"
  shows "\<exists>js. fs = map g js \<and> set js = {..<n}"
proof -
  have fs: "set fs = g ` {..<n}" using mset_eq_setD [OF m] by (simp add: atLeast0LessThan)
  then obtain js where js: "fs = map g js" "set js \<subseteq> {..<n}"
    using ex_map_subset [of fs g "{..<n}"] by auto
  have "{..<n} \<subseteq> set js"
  proof
    fix j assume j: "j \<in> {..<n}"
    then have "g j \<in> g ` set js" using fs js(1) by auto
    then obtain j' where j': "j' \<in> set js" "g j' = g j" by auto
    then have "j' = j" using inj j js(2) by (auto dest: inj_onD)
    then show "j \<in> set js" using j' by simp
  qed
  with js show ?thesis by auto
qed

lemma frames_inj:
  assumes s: "sender ch ps cs"
    and b64: "\<And>c. map_option elems (decode (encode c)) = Some c"
  shows "inj_on (\<lambda>j. encode (frame_of ch j)) {..<length ps}"
proof (rule inj_onI)
  fix i j assume i: "i \<in> {..<length ps}" and j: "j \<in> {..<length ps}"
    and e: "encode (frame_of ch i) = encode (frame_of ch j)"
  have "Some (frame_of ch i) = map_option elems (decode (encode (frame_of ch i)))"
    by (rule b64 [symmetric])
  also have "\<dots> = map_option elems (decode (encode (frame_of ch j)))"
    by (simp only: e)
  also have "\<dots> = Some (frame_of ch j)"
    by (rule b64)
  finally have f: "frame_of ch i = frame_of ch j" by (simp only: option.inject)
  have "u16le (frame_of ch i ! 0) (frame_of ch i ! 1) = of_nat i"
    by (rule read_frame_facts(3) [OF s _ refl]) (use i in simp)
  moreover have "u16le (frame_of ch j ! 0) (frame_of ch j ! 1) = of_nat j"
    by (rule read_frame_facts(3) [OF s _ refl]) (use j in simp)
  ultimately have "(of_nat i :: uint16) = of_nat j"
    by (simp only: f)
  then have "unat (of_nat i :: uint16) = unat (of_nat j :: uint16)"
    by (rule arg_cong)
  moreover have "i < 65536" "j < 65536" using s i j by (simp_all add: sender_def)
  ultimately show "i = j"
    by (simp only: unat_u16)
qed

lemma getChunkWithHeader_prefix:
  assumes "ch_count ch2 = ch_count ch" and "ch_size ch2 = ch_size ch"
    and "ch_data ch2 = take n (ch_data ch)" and "n \<le> length (ch_data ch)" and "unat i < n"
  shows "getChunkWithHeader ch i = getChunkWithHeader ch2 i"
  using assms by (simp add: getChunkWithHeader_def Let_def)

lemma SerializeB64_loop_prefix:
  assumes c: "ch_count ch2 = ch_count ch" and sz: "ch_size ch2 = ch_size ch"
    and d: "ch_data ch2 = take (unat (ch_count ch)) (ch_data ch)"
    and n: "unat (ch_count ch) \<le> length (ch_data ch)"
  shows "SerializeB64_loop encode ch i acc = SerializeB64_loop encode ch2 i acc"
proof (induction "unat (ch_count ch) - i" arbitrary: i acc)
  case 0
  then show ?case
    by (subst SerializeB64_loop.simps, subst (2) SerializeB64_loop.simps) (simp add: c)
next
  case (Suc k)
  then have i: "i < unat (ch_count ch)" by simp
  have "unat (ch_count ch) < 65536" using unsigned_less [of "ch_count ch"] by simp
  then have ui: "unat (of_nat i :: uint16) = i" using i by (simp add: unat_u16)
  have g: "getChunkWithHeader ch (of_nat i) = getChunkWithHeader ch2 (of_nat i)"
    by (rule getChunkWithHeader_prefix [OF c sz d n]) (simp add: ui i)
  have step: "SerializeB64_loop encode ch (Suc i) acc' = SerializeB64_loop encode ch2 (Suc i) acc'"
    for acc'
    using Suc by (intro Suc.hyps(1)) simp
  show ?case
    by (subst SerializeB64_loop.simps, subst (2) SerializeB64_loop.simps)
       (simp add: c g step split: result.splits)
qed

lemma windows_short:
  fixes cs len N :: nat
  assumes "0 < cs" and "N = (len + cs - 1) div cs" and "0 < N"
  shows "(N - 1) * cs < len"
proof -
  have "N * cs \<le> len + cs - 1" using assms(2) by simp
  moreover have "N * cs = (N - 1) * cs + cs" using assms(3) by (cases N) simp_all
  ultimately show ?thesis using assms(1) by simp
qed

lemma mod_u16_le:
  assumes "(65536 :: nat) \<le> N"
  shows "N mod 65536 + 65536 \<le> N"
proof -
  have "N mod 65536 = (N - 65536) mod 65536" using assms by (rule le_mod_geq)
  also have "\<dots> \<le> N - 65536" by (rule mod_less_eq_dividend)
  finally show ?thesis using assms by simp
qed

lemma u16_of_nat_mod: "(of_nat (N mod 65536) :: uint16) = of_nat N"
proof -
  have "(of_nat (N mod 65536) :: uint16) = of_nat (unat (of_nat N :: uint16))"
    by (simp add: unat_of_nat)
  then show ?thesis by simp
qed

lemma Data_NewChunks: "Data_loop NewChunks 0 [] = Ok []"
  by (subst Data_loop.simps) (simp add: NewChunks_def)

text \<open>
  C1 (amended). For every byte sequence \<open>b\<close> and every chunk size \<open>s\<close> from 7 to 65530
  for which the compressed data fill at most 65535 chunks of \<open>s - 6\<close> bytes, with
  \<open>uncompress\<close> inverting \<open>compress\<close> on \<open>b\<close> and the base64 decoder inverting the encoder:
  \<open>SetData\<close> returns the chunks, \<open>SerializeB64\<close> their frames, and feeding the frames
  into an empty buffer with \<open>ReadB64Chunk\<close>, in any permutation of their order, succeeds
  and leaves a buffer whose \<open>Data()\<close> is exactly \<open>b\<close>.
\<close>

theorem chunk_roundtrip:
  assumes s: "7 \<le> s" "s \<le> 65530"
    and gz: "compress b = Some cd" "uncompress cd = Some b"
    and n: "length cd \<le> 65535 * nat (s - 6)"
    and b64: "\<And>c. map_option elems (decode (encode c)) = Some c"
  shows "\<exists>ch frames. SetData compress b s = Some (Ok ch) \<and> SerializeB64 encode ch = Ok frames \<and>
           (\<forall>fs. mset fs = mset frames \<longrightarrow>
              (\<exists>ch'. ReadB64Chunks decode NewChunks fs = Ok ch' \<and> Data uncompress ch' = Ok b))"
proof -
  from SetData_sender [where compress = compress and b = b, OF s gz(1) n] obtain ch ps where
    ch: "SetData compress b s = Some (Ok ch)" and sd: "sender ch ps (nat (s - 6))"
    and cat: "concat ps = cd"
    by blast
  let ?g = "\<lambda>j. encode (frame_of ch j)"
  let ?frames = "map ?g [0..<length ps]"
  have ser: "SerializeB64 encode ch = Ok ?frames" by (rule SerializeB64_sender [OF sd])
  have N: "length ps < 65536" using sd by (simp add: sender_def)
  have "\<exists>ch'. ReadB64Chunks decode NewChunks fs = Ok ch' \<and> Data uncompress ch' = Ok b"
    if m: "mset fs = mset ?frames" for fs
  proof -
    from perm_indices [OF m frames_inj [where decode = decode and encode = encode, OF sd b64]]
    obtain js where
      js: "fs = map ?g js" "set js = {..<length ps}"
      by blast
    show ?thesis
    proof (cases "js = []")
      case True
      then have "ps = []" using js(2) by auto
      then have "cd = []" using cat by simp
      then have "Data uncompress NewChunks = Ok b"
        using gz(2) by (simp add: Data_def Data_NewChunks)
      then show ?thesis using True js(1) by simp
    next
      case False
      have "ReadB64Chunks decode NewChunks fs = Ok (filled ps {..<length ps})"
        using read_frames_new [where g = ?g and decode = decode, OF sd b64 _ False] js
        by simp
      moreover have "Data uncompress (filled ps {..<length ps}) = Ok b"
        using Data_loop_filled [OF N, of 0 "[]"] cat gz(2) by (simp add: Data_def)
      ultimately show ?thesis by simp
    qed
  qed
  with ch ser show ?thesis by blast
qed

lemma SetData_123: "SetData stored_compress [1, 2, 3] 8 = Some (Ok chunks_123)"
  by (simp add: SetData_def minChunkSize_def chunkHeaderOffset_def stored_compress_def
      SetData_loop.simps chunks_123_def)

lemma SerializeB64_123:
  "SerializeB64 b64_encode chunks_123 = Ok [''AAADAAIAH4s='', ''AQADAAIAAQI='', ''AgADAAEAAwA='']"
  by code_simp

lemma ReadB64Chunks_123:
  "ReadB64Chunks DecodeString NewChunks [''AgADAAEAAwA='', ''AAADAAIAH4s='', ''AQADAAIAAQI='']
     = Ok buffer_3of3"
  by code_simp

theorem chunk_roundtrip_witness:
  "SetData stored_compress [1, 2, 3] 8 = Some (Ok chunks_123) \<and>
   SerializeB64 b64_encode chunks_123 = Ok [''AAADAAIAH4s='', ''AQADAAIAAQI='', ''AgADAAEAAwA=''] \<and>
   ReadB64Chunks DecodeString NewChunks [''AgADAAEAAwA='', ''AAADAAIAH4s='', ''AQADAAIAAQI='']
     = Ok buffer_3of3 \<and>
   Data stored_uncompress buffer_3of3 = Ok [1, 2, 3]"
proof -
  have "\<exists>ch frames. SetData stored_compress [1, 2, 3] 8 = Some (Ok ch) \<and>
          SerializeB64 b64_encode ch = Ok frames \<and>
          (\<forall>fs. mset fs = mset frames \<longrightarrow>
             (\<exists>ch'. ReadB64Chunks DecodeString NewChunks fs = Ok ch' \<and>
                    Data stored_uncompress ch' = Ok [1, 2, 3]))"
    by (rule chunk_roundtrip [where cd = "[0x1f, 0x8b, 1, 2, 3]"])
       (simp_all add: stored_compress_def stored_uncompress_def DecodeString_encode)
  then have all: "\<forall>fs. mset fs = mset [''AAADAAIAH4s='', ''AQADAAIAAQI='', ''AgADAAEAAwA='']
            \<longrightarrow> (\<exists>ch'. ReadB64Chunks DecodeString NewChunks fs = Ok ch' \<and>
                    Data stored_uncompress ch' = Ok [1, 2, 3])"
    by (simp add: SetData_123 SerializeB64_123)
  have "mset [''AgADAAEAAwA='', ''AAADAAIAH4s='', ''AQADAAIAAQI='']
          = mset [''AAADAAIAH4s='', ''AQADAAIAAQI='', ''AgADAAEAAwA='']"
    by (simp add: add_mset_commute)
  from all [rule_format, OF this]
  have "\<exists>ch'. ReadB64Chunks DecodeString NewChunks
                [''AgADAAEAAwA='', ''AAADAAIAH4s='', ''AQADAAIAAQI=''] = Ok ch' \<and>
              Data stored_uncompress ch' = Ok [1, 2, 3]" .
  then obtain ch' where
    r: "ReadB64Chunks DecodeString NewChunks
          [''AgADAAEAAwA='', ''AAADAAIAH4s='', ''AQADAAIAAQI=''] = Ok ch'"
    and d: "Data stored_uncompress ch' = Ok [1, 2, 3]"
    by blast
  from r have "ch' = buffer_3of3" unfolding ReadB64Chunks_123 by simp
  with d have "Data stored_uncompress buffer_3of3 = Ok [1, 2, 3]"
    by simp
  with SetData_123 SerializeB64_123 ReadB64Chunks_123 show ?thesis by simp
qed

text \<open>
  C1 as stated fails. At chunk size 65531, and up to 65535, the guard
  \<open>chunkSize > 1<<16-chunkHeaderOffset\<close> answers before the data are compressed:
  \<open>SetData\<close> returns the error "max chunk size" and there is nothing to serialize.
\<close>

theorem chunk_roundtrip_counterexample:
  "SetData stored_compress [1, 2, 3] 65531 = Some (Error ErrMaxChunkSize)"
  by (simp add: SetData_def minChunkSize_def chunkHeaderOffset_def)

text \<open>
  The bound on the number of chunks in the round trip is needed, with every compressor.
  \<open>count\<close> is \<open>uint16(len(data))\<close>: when the compressed data fill 65536 chunks or more,
  \<open>SetData\<close> succeeds, the count wraps, \<open>SerializeB64\<close> returns only the frames of the
  first \<open>count mod 65536\<close> chunks, which hold fewer bytes than the compressed data, and
  the buffer that has received these frames, in any order, gives as its \<open>Data()\<close> what
  \<open>uncompress\<close> makes of that proper prefix of the compressed data (nothing when
  \<open>uncompress\<close> refuses it).
\<close>

theorem SetData_count_wraps:
  assumes s: "7 \<le> s" "s \<le> 65530"
    and gz: "compress b = Some cd"
    and n: "65536 \<le> (length cd + nat (s - 6) - 1) div nat (s - 6)"
    and b64: "\<And>c. map_option elems (decode (encode c)) = Some c"
  shows "\<exists>ch frames. SetData compress b s = Some (Ok ch) \<and> SerializeB64 encode ch = Ok frames \<and>
           length frames = (length cd + nat (s - 6) - 1) div nat (s - 6) mod 65536 \<and>
           length frames * nat (s - 6) < length cd \<and>
           (\<forall>fs. mset fs = mset frames \<longrightarrow>
              (\<exists>ch'. ReadB64Chunks decode NewChunks fs = Ok ch' \<and>
                     Data uncompress ch' =
                       Ok (case uncompress (take (length frames * nat (s - 6)) cd) of
                             None \<Rightarrow> [] | Some r \<Rightarrow> r)))"
proof -
  define cs where "cs = nat (s - 6)"
  define N where "N = (length cd + cs - 1) div cs"
  define k where "k = N mod 65536"
  define ps where "ps = map (\<lambda>j. take cs (drop (j * cs) cd)) [0..<N]"
  define ps2 where "ps2 = map (\<lambda>j. take cs (drop (j * cs) cd)) [0..<k]"
  define ch where "ch = \<lparr>ch_count = of_nat N, ch_size = of_int (s - 6), ch_data = map Some ps\<rparr>"
  define ch2 where "ch2 = \<lparr>ch_count = of_nat N, ch_size = of_int (s - 6), ch_data = map Some ps2\<rparr>"
  define frames where "frames = map (\<lambda>j. encode (frame_of ch2 j)) [0..<k]"
  have cs: "0 < cs" using s by (simp add: cs_def)
  have cs6: "cs + 6 < 65536" using s by (simp add: cs_def)
  have sz: "(of_int (s - 6) :: uint16) = of_nat cs" using s by (simp add: cs_def)
  have N: "65536 \<le> N" using n by (simp only: N_def cs_def)
  have kN: "k + 65536 \<le> N" unfolding k_def by (rule mod_u16_le [OF N])
  have k: "k < 65536" unfolding k_def by simp
  have cnt: "(of_nat N :: uint16) = of_nat k" unfolding k_def by (rule u16_of_nat_mod [symmetric])
  have ucnt: "unat (of_nat N :: uint16) = k" unfolding cnt using k by (rule unat_u16)
  have lps: "length ps = N" by (simp add: ps_def)
  have lps2: "length ps2 = k" by (simp add: ps2_def)
  have kleN: "k \<le> N" using kN by simp
  have tk: "take k ps = ps2" using kleN by (simp add: ps_def ps2_def take_map min_def)
  have c: "chunks_of cd cs 0 = map Some ps" by (simp add: chunks_of_def ps_def N_def)
  have loop: "SetData_loop cd cs 0 [] = Some (map Some ps)"
    using SetData_loop_eq [OF cs, of cd 0 "[]"] by (simp add: c)
  have set0: "SetData compress b s =
      Some (Ok \<lparr>ch_count = of_nat (length (map Some ps)), ch_size = of_int (s - 6),
                ch_data = map Some ps\<rparr>)"
    using s gz loop
    by (simp add: SetData_def minChunkSize_def chunkHeaderOffset_def cs_def [symmetric])
  have set: "SetData compress b s = Some (Ok ch)"
    unfolding set0 ch_def by (simp add: lps)
  have la: "list_all (\<lambda>p. length p \<le> cs) ps2"
    by (simp add: ps2_def list_all_iff)
  have sd: "sender ch2 ps2 cs"
    unfolding sender_def ch2_def using sz cnt la cs6 k by (simp add: lps2)
  have "SerializeB64 encode ch = SerializeB64 encode ch2"
    unfolding SerializeB64_def
  proof (rule SerializeB64_loop_prefix)
    show "ch_count ch2 = ch_count ch" by (simp add: ch_def ch2_def)
    show "ch_size ch2 = ch_size ch" by (simp add: ch_def ch2_def)
    have "ch_data ch2 = take k (ch_data ch)"
      by (simp add: ch_def ch2_def take_map tk)
    then show "ch_data ch2 = take (unat (ch_count ch)) (ch_data ch)"
      by (simp add: ch_def ucnt)
    show "unat (ch_count ch) \<le> length (ch_data ch)"
      using kleN by (simp add: ch_def ucnt lps)
  qed
  also have "\<dots> = Ok frames"
    using SerializeB64_sender [OF sd, of encode] by (simp only: lps2 frames_def)
  finally have ser: "SerializeB64 encode ch = Ok frames" .
  have lf: "length frames = k" by (simp add: frames_def)
  have cat: "concat ps2 = take (k * cs) cd"
    unfolding ps2_def by (rule concat_windows)
  have N0: "0 < N" using N by simp
  have "k \<le> N - 1" using kN by simp
  then have "k * cs \<le> (N - 1) * cs" by (rule mult_le_mono1)
  also have "\<dots> < length cd" by (rule windows_short [OF cs N_def N0])
  finally have lost: "k * cs < length cd" .
  have rd: "\<exists>ch'. ReadB64Chunks decode NewChunks fs = Ok ch' \<and>
               Data uncompress ch' =
                 Ok (case uncompress (take (k * cs) cd) of None \<Rightarrow> [] | Some r \<Rightarrow> r)"
    if m: "mset fs = mset frames" for fs
  proof -
    have inj: "inj_on (\<lambda>j. encode (frame_of ch2 j)) {..<k}"
      using frames_inj [where decode = decode and encode = encode, OF sd b64]
      by (simp only: lps2)
    from perm_indices [OF m [unfolded frames_def] inj]
    obtain js where js: "fs = map (\<lambda>j. encode (frame_of ch2 j)) js" "set js = {..<k}"
      by blast
    show ?thesis
    proof (cases "js = []")
      case True
      then have "{..<k} = {}" using js(2) by simp
      then have "k = 0" by (simp add: lessThan_empty_iff)
      then have "Data uncompress NewChunks =
                 Ok (case uncompress (take (k * cs) cd) of None \<Rightarrow> [] | Some r \<Rightarrow> r)"
        by (simp add: Data_def Data_NewChunks)
      then show ?thesis using True js(1) by simp
    next
      case False
      have js': "set js \<subseteq> {..<length ps2}" using js(2) by (simp only: lps2)
      have "ReadB64Chunks decode NewChunks fs = Ok (filled ps2 (set js))"
        unfolding js(1)
        by (rule read_frames_new [where decode = decode, OF sd b64 js' False])
      then have r: "ReadB64Chunks decode NewChunks fs = Ok (filled ps2 {..<length ps2})"
        by (simp only: js(2) lps2)
      have N2: "length ps2 < 65536" using k by (simp only: lps2)
      have "Data_loop (filled ps2 {..<length ps2}) 0 [] = Ok (concat ps2)"
        using Data_loop_filled [OF N2, of 0 "[]"] by simp
      then have "Data uncompress (filled ps2 {..<length ps2}) =
                 Ok (case uncompress (take (k * cs) cd) of None \<Rightarrow> [] | Some r \<Rightarrow> r)"
        by (simp add: Data_def cat)
      with r show ?thesis by simp
    qed
  qed
  have all: "\<forall>fs. mset fs = mset frames \<longrightarrow>
              (\<exists>ch'. ReadB64Chunks decode NewChunks fs = Ok ch' \<and>
                     Data uncompress ch' =
                       Ok (case uncompress (take (length frames * cs) cd) of
                             None \<Rightarrow> [] | Some r \<Rightarrow> r))"
    unfolding lf using rd by blast
  have lost': "length frames * cs < length cd"
    unfolding lf by (rule lost)
  have lf': "length frames = (length cd + cs - 1) div cs mod 65536"
    unfolding lf k_def N_def by (rule refl)
  from set ser lf' lost' all show ?thesis
    unfolding cs_def by (intro exI [of _ ch] exI [of _ frames] conjI)
qed

text \<open>
  With the storing stand-in for \<open>compress\<close>, 65534 bytes at chunk size 7 give 65536 bytes
  and as many chunks of one byte: no frame is serialized and \<open>Data()\<close> of the empty
  buffer is empty.
\<close>

theorem SetData_count_wraps_witness:
  "(case SetData stored_compress (replicate 65534 0) 7 of
      Some (Ok ch) \<Rightarrow> SerializeB64 b64_encode ch = Ok []
    | _ \<Rightarrow> False) \<and>
   ReadB64Chunks DecodeString NewChunks [] = Ok NewChunks \<and>
   Data stored_uncompress NewChunks = Ok []"
proof -
  have "\<exists>ch frames. SetData stored_compress (replicate 65534 0) 7 = Some (Ok ch) \<and>
          SerializeB64 b64_encode ch = Ok frames \<and>
          length frames = (length (0x1f # 0x8b # replicate 65534 (0 :: byte)) + nat (7 - 6) - 1)
                             div nat (7 - 6) mod 65536 \<and>
          length frames * nat (7 - 6) < length (0x1f # 0x8b # replicate 65534 (0 :: byte)) \<and>
          (\<forall>fs. mset fs = mset frames \<longrightarrow>
              (\<exists>ch'. ReadB64Chunks DecodeString NewChunks fs = Ok ch' \<and>
                     Data stored_uncompress ch' =
                       Ok (case stored_uncompress (take (length frames * nat (7 - 6))
                                 (0x1f # 0x8b # replicate 65534 0)) of
                             None \<Rightarrow> [] | Some r \<Rightarrow> r)))"
    by (rule SetData_count_wraps [where cd = "0x1f # 0x8b # replicate 65534 0"])
       (simp_all add: stored_compress_def DecodeString_encode)
  then obtain ch frames where
    a: "SetData stored_compress (replicate 65534 0) 7 = Some (Ok ch)"
    and b: "SerializeB64 b64_encode ch = Ok frames"
    and l: "length frames = (length (0x1f # 0x8b # replicate 65534 (0 :: byte)) + nat (7 - 6) - 1)
                             div nat (7 - 6) mod 65536"
    by blast
  from l have "frames = []" by simp
  with a b show ?thesis
    by (simp add: Data_def Data_NewChunks stored_uncompress_def)
qed

end
